theory Spec2Isabelle
  imports Main "HOL-Library.Sublist"
begin

section \<open>Python values and exceptions\<close>

text \<open>
  The notebooks call the recommendation service through its SDK and wait for remote jobs
  with small pieces of Python. Exceptions are values: a function that can raise returns
  \<open>pyerr + 'a\<close>, with \<open>Inl\<close> for the exception.

  A describe response is a dictionary of dictionaries; the code reads string fields only
  (\<^verbatim>\<open>desc["datasetGroup"]["status"]\<close>), so it is a map from keys to maps from keys to
  strings. A missing key raises KeyError, as the subscript does in Python.
\<close>

type_synonym desc = "string \<rightharpoonup> (string \<rightharpoonup> string)"

text \<open>
  \<open>ValueError msg d\<close>: the message text, and the object an f-string interpolates after it
  (\<^verbatim>\<open>f"Batch job failed!\n{desc}"\<close>), when there is one. \<open>ClientError\<close> is what a call
  of the service raises when it fails.
\<close>

datatype pyerr = KeyError string | ValueError string "desc option" | ClientError string

definition getitem :: "(string \<rightharpoonup> 'v) \<Rightarrow> string \<Rightarrow> pyerr + 'v" where
  "getitem d k = (case d k of None \<Rightarrow> Inl (KeyError k) | Some v \<Rightarrow> Inr v)"

text \<open>\<^verbatim>\<open>d[k1][k2]\<close>\<close>

definition getitem2 :: "desc \<Rightarrow> string \<Rightarrow> string \<Rightarrow> pyerr + string" where
  "getitem2 d k1 k2 = (case getitem d k1 of Inl e \<Rightarrow> Inl e | Inr inner \<Rightarrow> getitem inner k2)"

text \<open>\<^verbatim>\<open>sub in s\<close> on strings: \<open>sub\<close> occurs in \<open>s\<close> as a contiguous run.\<close>

fun str_in :: "string \<Rightarrow> string \<Rightarrow> bool" where
  "str_in sub [] = (sub = [])"
| "str_in sub (c # cs) = (prefix sub (c # cs) \<or> str_in sub cs)"

definition newline :: string where
  "newline = [CHR 0x0A]"

text \<open>\<^verbatim>\<open>str(n)\<close> for a length: the decimal digits.\<close>

fun str_nat :: "nat \<Rightarrow> string" where
  "str_nat n =
     (if n < 10 then [''0123456789'' ! n]
      else str_nat (n div 10) @ [''0123456789'' ! (n mod 10)])"

declare str_nat.simps [simp del]

section \<open>Completion predicates for a single job\<close>

text \<open>
  \<^verbatim>\<open>
  def is_dsg_ready(desc):
      status = desc["datasetGroup"]["status"]
      if status == "ACTIVE":
          return True
      elif "FAILED" in status:
          raise ValueError(f"Failed to create Dataset Group!\n{desc}")
  \<close>
  Falling off the end returns None. The result is \<open>Inr (Some True)\<close>, \<open>Inr None\<close> or the
  exception.
\<close>

definition is_dsg_ready :: "desc \<Rightarrow> pyerr + bool option" where
  "is_dsg_ready desc =
     (case getitem2 desc ''datasetGroup'' ''status'' of
        Inl e \<Rightarrow> Inl e
      | Inr status \<Rightarrow>
          if status = ''ACTIVE'' then Inr (Some True)
          else if str_in ''FAILED'' status
            then Inl (ValueError (''Failed to create Dataset Group!'' @ newline) (Some desc))
          else Inr None)"

text \<open>
  \<^verbatim>\<open>
  def is_ds_ready(desc):
      status = desc["dataset"]["status"]
      if status == "ACTIVE":
          return True
      elif "CREATE FAILED" in status:
          raise ValueError(f"Failed to create Dataset!\n{desc}")
  \<close>
\<close>

definition is_ds_ready :: "desc \<Rightarrow> pyerr + bool option" where
  "is_ds_ready desc =
     (case getitem2 desc ''dataset'' ''status'' of
        Inl e \<Rightarrow> Inl e
      | Inr status \<Rightarrow>
          if status = ''ACTIVE'' then Inr (Some True)
          else if str_in ''CREATE FAILED'' status
            then Inl (ValueError (''Failed to create Dataset!'' @ newline) (Some desc))
          else Inr None)"

text \<open>
  \<^verbatim>\<open>
  def is_batch_job_finished(desc):
      status = desc["batchInferenceJob"]["status"]
      if status == "ACTIVE":
          return True
      elif "FAILED" in status:
          raise ValueError(f"Batch job failed!\n{desc}")
  \<close>
\<close>

definition is_batch_job_finished :: "desc \<Rightarrow> pyerr + bool option" where
  "is_batch_job_finished desc =
     (case getitem2 desc ''batchInferenceJob'' ''status'' of
        Inl e \<Rightarrow> Inl e
      | Inr status \<Rightarrow>
          if status = ''ACTIVE'' then Inr (Some True)
          else if str_in ''FAILED'' status
            then Inl (ValueError (''Batch job failed!'' @ newline) (Some desc))
          else Inr None)"

text \<open>A describe response that holds one job's status under the given key.\<close>

definition status_desc :: "string \<Rightarrow> string \<Rightarrow> desc" where
  "status_desc k status = [k \<mapsto> [''status'' \<mapsto> status]]"

section \<open>Looking up a campaign or a filter by name\<close>

text \<open>
  A campaign or filter summary, as the list calls return it: a dictionary whose string
  fields (\<open>name\<close>, \<open>campaignArn\<close>, \<open>filterArn\<close>) are the ones the code reads.
\<close>

type_synonym summary = "string \<rightharpoonup> string"

text \<open>
  \<^verbatim>\<open>next(filter(lambda c: c["name"] == wanted, items))\<close>: the first item whose name is the
  wanted one; \<open>Inr None\<close> is StopIteration. The filter is lazy, so the names are read in
  order, up to the first match only, and a KeyError among them propagates.
\<close>

fun next_filter_name :: "string \<Rightarrow> summary list \<Rightarrow> pyerr + summary option" where
  "next_filter_name wanted [] = Inr None"
| "next_filter_name wanted (c # cs) =
     (case getitem c ''name'' of
        Inl e \<Rightarrow> Inl e
      | Inr n \<Rightarrow> if n = wanted then Inr (Some c) else next_filter_name wanted cs)"

text \<open>\<^verbatim>\<open>map(lambda c: c["name"], items)\<close>, consumed whole by \<^verbatim>\<open>join\<close>.\<close>

fun names_of :: "summary list \<Rightarrow> pyerr + string list" where
  "names_of [] = Inr []"
| "names_of (c # cs) =
     (case getitem c ''name'' of
        Inl e \<Rightarrow> Inl e
      | Inr n \<Rightarrow> (case names_of cs of Inl e \<Rightarrow> Inl e | Inr ns \<Rightarrow> Inr (n # ns)))"

text \<open>\<^verbatim>\<open>sep.join(xs)\<close>\<close>

fun str_join :: "string \<Rightarrow> string list \<Rightarrow> string" where
  "str_join sep [] = []"
| "str_join sep [x] = x"
| "str_join sep (x # y # ys) = x @ sep @ str_join sep (y # ys)"

text \<open>\<^verbatim>\<open>"<kind> '{}' not found! Got:\n- {}".format(wanted, "\n- ".join(names))\<close>\<close>

definition not_found_message :: "string \<Rightarrow> string \<Rightarrow> string list \<Rightarrow> string" where
  "not_found_message kind wanted names =
     kind @ '' '' @ [CHR 0x27] @ wanted @ [CHR 0x27] @ '' not found! Got:'' @ newline @ ''- ''
       @ str_join (newline @ ''- '') names"

text \<open>
  \<^verbatim>\<open>
  def get_campaign_arn_by_name(campaign_name):
      campaigns = personalize.list_campaigns()["campaigns"]
      try:
          return next(filter(
              lambda c: c["name"] == campaign_name,
              campaigns,
          ))["campaignArn"]
      except StopIteration:
          raise ValueError("Campaign '{}' not found! Got:\n- {}".format(
              campaign_name,
              "\n- ".join(map(lambda c: c["name"], campaigns))
          ))
  \<close>
  The first argument is what \<^verbatim>\<open>personalize.list_campaigns()\<close> returned.
\<close>

definition get_campaign_arn_by_name :: "(string \<rightharpoonup> summary list) \<Rightarrow> string \<Rightarrow> pyerr + string" where
  "get_campaign_arn_by_name list_campaigns campaign_name =
     (case getitem list_campaigns ''campaigns'' of
        Inl e \<Rightarrow> Inl e
      | Inr campaigns \<Rightarrow>
          (case next_filter_name campaign_name campaigns of
             Inl e \<Rightarrow> Inl e
           | Inr (Some c) \<Rightarrow> getitem c ''campaignArn''
           | Inr None \<Rightarrow>
               (case names_of campaigns of
                  Inl e \<Rightarrow> Inl e
                | Inr names \<Rightarrow>
                    Inl (ValueError (not_found_message ''Campaign'' campaign_name names) None))))"

text \<open>
  \<^verbatim>\<open>
  def get_filter_arn_by_name(filter_name):
      filters = personalize.list_filters(datasetGroupArn=dataset_group_arn)["Filters"]
      try:
          return next(filter(
              lambda f: f["name"] == filter_name,
              filters
          ))["filterArn"]
      except StopIteration:
          raise ValueError("Filter '{}' not found! Got:\n- {}".format(
              filter_name,
              "\n- ".join(map(lambda f: f["name"], filters))
          ))
  \<close>
  The first argument is what \<^verbatim>\<open>personalize.list_filters(...)\<close> returned.
\<close>

definition get_filter_arn_by_name :: "(string \<rightharpoonup> summary list) \<Rightarrow> string \<Rightarrow> pyerr + string" where
  "get_filter_arn_by_name list_filters filter_name =
     (case getitem list_filters ''Filters'' of
        Inl e \<Rightarrow> Inl e
      | Inr filters \<Rightarrow>
          (case next_filter_name filter_name filters of
             Inl e \<Rightarrow> Inl e
           | Inr (Some f) \<Rightarrow> getitem f ''filterArn''
           | Inr None \<Rightarrow>
               (case names_of filters of
                  Inl e \<Rightarrow> Inl e
                | Inr names \<Rightarrow>
                    Inl (ValueError (not_found_message ''Filter'' filter_name names) None))))"

text \<open>A summary with a name and an ARN under the given key.\<close>

definition named_summary :: "string \<Rightarrow> string \<Rightarrow> string \<Rightarrow> summary" where
  "named_summary arn_key name arn = [''name'' \<mapsto> name, arn_key \<mapsto> arn]"

text \<open>Whether a result is a raised ValueError.\<close>

fun is_ValueError :: "pyerr + 'a \<Rightarrow> bool" where
  "is_ValueError (Inl (ValueError m d)) = True"
| "is_ValueError r = False"


text \<open>Example responses: three campaigns, two of them with the same name, and one filter.\<close>

definition example_campaigns :: "summary list" where
  "example_campaigns =
     [named_summary ''campaignArn'' ''personalize-movielens-up'' ''arn:campaign/up'',
      named_summary ''campaignArn'' ''personalize-movielens-sims'' ''arn:campaign/sims'',
      named_summary ''campaignArn'' ''personalize-movielens-sims'' ''arn:campaign/sims-2'']"

definition example_filters :: "summary list" where
  "example_filters = [named_summary ''filterArn'' ''by-genre'' ''arn:filter/by-genre'']"


section \<open>Logging review events under a session id\<close>

text \<open>
  \<^verbatim>\<open>
  def generate_random_session_id():
      return str(uuid.uuid1)
  \<close>
  \<^verbatim>\<open>uuid.uuid1\<close> is not called: the function object itself is turned into text. That text
  (\<^verbatim>\<open><function uuid1 at 0x...>\<close>) is fixed while the interpreter runs; it is the
  parameter \<open>str_uuid1\<close>.
\<close>

definition generate_random_session_id :: "string \<Rightarrow> unit \<Rightarrow> string" where
  "generate_random_session_id str_uuid1 u = str_uuid1"

text \<open>
  \<^verbatim>\<open>d[key]\<close> on a \<^verbatim>\<open>defaultdict(factory)\<close>: a missing key is given the factory's value,
  which is stored and returned.
\<close>

definition defaultdict_getitem :: "(unit \<Rightarrow> 'v) \<Rightarrow> ('k \<rightharpoonup> 'v) \<Rightarrow> 'k \<Rightarrow> 'v \<times> ('k \<rightharpoonup> 'v)" where
  "defaultdict_getitem factory d k =
     (case d k of
        Some v \<Rightarrow> (v, d)
      | None \<Rightarrow> (let v = factory () in (v, d(k \<mapsto> v))))"

text \<open>The event dictionary; the two optional keys are present when they were set.\<close>

record ('r, 't) event =
  eventType :: string
  eventValue :: 'r
  itemId :: string
  sentAt :: 't
  impression :: "string list option"
  recommendationId :: "string option"

text \<open>The keyword arguments of one \<^verbatim>\<open>put_events\<close> call.\<close>

record ('r, 't) put_events_request =
  trackingId :: string
  userId :: string
  sessionId :: string
  eventList :: "('r, 't) event list"

text \<open>
  What the notebook holds while reviews are logged: \<^verbatim>\<open>session_dict\<close>, and the requests
  sent to the events service so far, oldest first.
\<close>

record ('u, 'r, 't) review_state =
  session_dict :: "'u \<rightharpoonup> string"
  sent :: "('r, 't) put_events_request list"

text \<open>
  The surroundings of \<^verbatim>\<open>log_new_review\<close>: the text of \<^verbatim>\<open>uuid.uuid1\<close>, the global
  \<^verbatim>\<open>tracking_id\<close>, Python's \<^verbatim>\<open>str\<close> on user and item ids, and how the events service
  answers a request (it may raise).
\<close>

record ('u, 'i, 'r, 't) review_env =
  str_uuid1 :: string
  tracking_id :: string
  str_user :: "'u \<Rightarrow> string"
  str_item :: "'i \<Rightarrow> string"
  put_events :: "('r, 't) put_events_request \<Rightarrow> pyerr + unit"

text \<open>The arguments of one call; \<open>at\<close> is what \<^verbatim>\<open>datetime.now()\<close> returns during it.\<close>

record ('u, 'i, 'r, 't) review_call =
  user_id :: 'u
  item_id :: 'i
  rating :: 'r
  recommendation_id :: "string option"
  impression_arg :: "string list option"
  at :: 't

text \<open>
  \<^verbatim>\<open>
  session_dict = defaultdict(generate_random_session_id)

  def log_new_review(user_id, item_id, rating=5, recommendation_id=None, impression=None,
                     metadata=None):
      session_id = session_dict[user_id]
      event = {
          "eventType": "review",
          "eventValue": rating,
          "itemId": str(item_id),
          "sentAt": datetime.now(),
      }
      if impression is not None:
          event["impression"] = impression
      if recommendation_id is not None:
          event["recommendationId"] = recommendation_id

      personalize_events.put_events(
          trackingId=tracking_id,
          userId=str(user_id),
          sessionId=session_id,
          eventList=[event]
      )
  \<close>
  The body does not use \<^verbatim>\<open>metadata\<close>.
\<close>

definition log_new_review ::
  "('u, 'i, 'r, 't) review_env \<Rightarrow> ('u, 'i, 'r, 't) review_call \<Rightarrow> ('u, 'r, 't) review_state
     \<Rightarrow> (pyerr + unit) \<times> ('u, 'r, 't) review_state" where
  "log_new_review env c st =
     (case defaultdict_getitem (generate_random_session_id (str_uuid1 env))
             (session_dict st) (user_id c) of
        (session_id, sd) \<Rightarrow>
          let event0 = \<lparr>eventType = ''review'', eventValue = rating c,
                          itemId = str_item env (item_id c), sentAt = at c,
                          impression = None, recommendationId = None\<rparr>;
              event1 = (case impression_arg c of
                          Some imp \<Rightarrow> event0\<lparr>impression := Some imp\<rparr>
                        | None \<Rightarrow> event0);
              event2 = (case recommendation_id c of
                          Some rid \<Rightarrow> event1\<lparr>recommendationId := Some rid\<rparr>
                        | None \<Rightarrow> event1);
              request = \<lparr>trackingId = tracking_id env, userId = str_user env (user_id c),
                           sessionId = session_id, eventList = [event2]\<rparr>
          in (put_events env request, st\<lparr>session_dict := sd, sent := sent st @ [request]\<rparr>))"

text \<open>
  A run of the notebook: the calls of \<^verbatim>\<open>log_new_review\<close> in order, whatever each one
  returns or raises.
\<close>

fun log_reviews ::
  "('u, 'i, 'r, 't) review_env \<Rightarrow> ('u, 'i, 'r, 't) review_call list \<Rightarrow> ('u, 'r, 't) review_state
     \<Rightarrow> ('u, 'r, 't) review_state" where
  "log_reviews env [] st = st"
| "log_reviews env (c # cs) st = log_reviews env cs (snd (log_new_review env c st))"

text \<open>The state when \<^verbatim>\<open>session_dict\<close> has just been created.\<close>

definition fresh_reviews :: "('u, 'r, 't) review_state" where
  "fresh_reviews = \<lparr>session_dict = Map.empty, sent = []\<rparr>"


text \<open>
  Two interpreter processes, which differ in the text of \<^verbatim>\<open>uuid.uuid1\<close> only (it carries
  the address of the function object), and one call.
\<close>

definition first_run :: "(nat, nat, nat, nat) review_env" where
  "first_run =
     \<lparr>str_uuid1 = ''<function uuid1 at 0x7f3a5c0d1e50>'', tracking_id = ''tracking-id'',
        str_user = str_nat, str_item = str_nat, put_events = (\<lambda>request. Inr ())\<rparr>"

definition second_run :: "(nat, nat, nat, nat) review_env" where
  "second_run = first_run\<lparr>str_uuid1 := ''<function uuid1 at 0x7f81e42b7e50>''\<rparr>"

definition one_review :: "(nat, nat, nat, nat) review_call" where
  "one_review =
     \<lparr>user_id = 1, item_id = 2, rating = 5, recommendation_id = None, impression_arg = None,
        at = 0\<rparr>"

section \<open>Waiting for the campaigns to deploy\<close>

text \<open>
  \<^verbatim>\<open>xs.remove(x)\<close>: the first occurrence of \<open>x\<close> goes; ValueError when there is none.
\<close>

definition list_remove :: "string \<Rightarrow> string list \<Rightarrow> pyerr + string list" where
  "list_remove x xs =
     (if x \<in> set xs then Inr (remove1 x xs)
      else Inl (ValueError ''list.remove(x): x not in list'' None))"

text \<open>
  The state of the wait loop: the list \<^verbatim>\<open>in_progress_campaigns\<close>, the clock in seconds
  (\<^verbatim>\<open>time.time()\<close>; only \<^verbatim>\<open>time.sleep\<close> advances it), the \<^verbatim>\<open>describe_campaign\<close>
  calls made so far, oldest first, each with the status read from its response or the
  exception raised on the way, and the lines printed.
\<close>

record wait_state =
  in_progress_campaigns :: "string list"
  now :: nat
  described :: "(string \<times> (pyerr + string)) list"
  stdout :: "string list"

text \<open>
  The service: what \<^verbatim>\<open>describe_campaign\<close> answers for an ARN, given how many describe
  calls came before (so any sequence of answers can be given). It may raise.
\<close>

type_synonym describe_campaign = "nat \<Rightarrow> string \<Rightarrow> pyerr + desc"

text \<open>
  \<^verbatim>\<open>
  for campaign_arn in in_progress_campaigns:
      version_response = personalize.describe_campaign(
          campaignArn = campaign_arn
      )
      status = version_response["campaign"]["status"]

      if status == "ACTIVE":
          print("Build succeeded for {}".format(campaign_arn))
          in_progress_campaigns.remove(campaign_arn)
      elif status == "CREATE FAILED":
          print("Build failed for {}".format(campaign_arn))
          in_progress_campaigns.remove(campaign_arn)
  \<close>
  The loop iterates over the list it removes from. A list iterator holds an index \<open>i\<close>
  into the live list: it yields element \<open>i\<close> while \<open>i\<close> is below the current length, and
  moves to \<open>i + 1\<close>.
\<close>

function for_campaigns :: "describe_campaign \<Rightarrow> nat \<Rightarrow> wait_state \<Rightarrow> (pyerr + unit) \<times> wait_state" where
  "for_campaigns describe i st =
     (if i < length (in_progress_campaigns st) then
        (let campaign_arn = in_progress_campaigns st ! i in
         case describe (length (described st)) campaign_arn of
           Inl e \<Rightarrow> (Inl e, st\<lparr>described := described st @ [(campaign_arn, Inl e)]\<rparr>)
         | Inr version_response \<Rightarrow>
             (case getitem2 version_response ''campaign'' ''status'' of
                Inl e \<Rightarrow> (Inl e, st\<lparr>described := described st @ [(campaign_arn, Inl e)]\<rparr>)
              | Inr status \<Rightarrow>
                  (let st1 = st\<lparr>described := described st @ [(campaign_arn, Inr status)]\<rparr> in
                   if status = ''ACTIVE'' then
                     (let st2 = st1\<lparr>stdout := stdout st1 @ [''Build succeeded for '' @ campaign_arn]\<rparr> in
                      case list_remove campaign_arn (in_progress_campaigns st2) of
                        Inl e \<Rightarrow> (Inl e, st2)
                      | Inr rest \<Rightarrow>
                          for_campaigns describe (i + 1) (st2\<lparr>in_progress_campaigns := rest\<rparr>))
                   else if status = ''CREATE FAILED'' then
                     (let st2 = st1\<lparr>stdout := stdout st1 @ [''Build failed for '' @ campaign_arn]\<rparr> in
                      case list_remove campaign_arn (in_progress_campaigns st2) of
                        Inl e \<Rightarrow> (Inl e, st2)
                      | Inr rest \<Rightarrow>
                          for_campaigns describe (i + 1) (st2\<lparr>in_progress_campaigns := rest\<rparr>))
                   else for_campaigns describe (i + 1) st1)))
      else (Inr (), st))"
  by pat_completeness auto
termination
  by (relation "measure (\<lambda>(describe, i, st). length (in_progress_campaigns st) - i)")
     (auto simp: list_remove_def length_remove1 split: if_splits)

declare for_campaigns.simps [simp del]

text \<open>What one iteration reads: the status in the response, or the exception on the way.\<close>

definition read_status :: "describe_campaign \<Rightarrow> wait_state \<Rightarrow> string \<Rightarrow> pyerr + string" where
  "read_status describe st arn =
     (case describe (length (described st)) arn of
        Inl e \<Rightarrow> Inl e
      | Inr version_response \<Rightarrow> getitem2 version_response ''campaign'' ''status'')"

text \<open>The two statuses on which the loop removes the campaign from the list.\<close>

definition terminal :: "pyerr + string \<Rightarrow> bool" where
  "terminal r \<longleftrightarrow> r = Inr ''ACTIVE'' \<or> r = Inr ''CREATE FAILED''"

text \<open>
  A describe log in which some campaign was described again after a call that had read
  \<open>ACTIVE\<close> or \<open>CREATE FAILED\<close> for it.
\<close>

definition polled_after_terminal :: "(string \<times> (pyerr + string)) list \<Rightarrow> bool" where
  "polled_after_terminal log \<longleftrightarrow>
     (\<exists>i j. i < j \<and> j < length log \<and> fst (log ! j) = fst (log ! i) \<and> terminal (snd (log ! i)))"

lemma for_campaigns_unfold:
  "for_campaigns describe i st =
     (if i < length (in_progress_campaigns st) then
        (let arn = in_progress_campaigns st ! i; r = read_status describe st arn;
             st1 = st\<lparr>described := described st @ [(arn, r)]\<rparr> in
         case r of
           Inl e \<Rightarrow> (Inl e, st1)
         | Inr status \<Rightarrow>
             if terminal r then
               for_campaigns describe (i + 1)
                 (st1\<lparr>stdout := stdout st @
                          [(if status = ''ACTIVE'' then ''Build succeeded for '' else ''Build failed for '') @ arn],
                       in_progress_campaigns := remove1 arn (in_progress_campaigns st)\<rparr>)
             else for_campaigns describe (i + 1) st1)
      else (Inr (), st))"
  apply (subst for_campaigns.simps)
  apply (simp add: Let_def read_status_def terminal_def list_remove_def split: sum.split)
  done

lemma for_campaigns_induct_inv:
  assumes "P st"
      and "\<And>st arn r. P st \<Longrightarrow> arn \<in> set (in_progress_campaigns st) \<Longrightarrow> \<not> terminal r \<Longrightarrow>
             P (st\<lparr>described := described st @ [(arn, r)]\<rparr>)"
      and "\<And>st arn r out. P st \<Longrightarrow> arn \<in> set (in_progress_campaigns st) \<Longrightarrow> terminal r \<Longrightarrow>
             P (st\<lparr>described := described st @ [(arn, r)], stdout := out,
                   in_progress_campaigns := remove1 arn (in_progress_campaigns st)\<rparr>)"
  shows "P (snd (for_campaigns describe i st))"
  using assms(1)
proof (induction "length (in_progress_campaigns st) - i" arbitrary: i st rule: less_induct)
  case less
  show ?case
  proof (cases "i < length (in_progress_campaigns st)")
    case False
    then show ?thesis using less.prems by (subst for_campaigns_unfold) simp
  next
    case True
    define arn where "arn = in_progress_campaigns st ! i"
    define r where "r = read_status describe st arn"
    have mem: "arn \<in> set (in_progress_campaigns st)" using True by (simp add: arn_def)
    show ?thesis
    proof (cases "terminal r")
      case False
      have P1: "P (st\<lparr>described := described st @ [(arn, r)]\<rparr>)"
        by (rule assms(2) [OF less.prems mem False])
      show ?thesis
      proof (cases r)
        case (Inl e)
        then show ?thesis using True P1
          by (subst for_campaigns_unfold) (simp add: Let_def arn_def [symmetric] r_def [symmetric])
      next
        case (Inr status)
        have "P (snd (for_campaigns describe (i + 1) (st\<lparr>described := described st @ [(arn, r)]\<rparr>)))"
          using True by (intro less.hyps P1) simp
        then show ?thesis using True Inr False
          by (subst for_campaigns_unfold) (simp add: Let_def arn_def [symmetric] r_def [symmetric])
      qed
    next
      case tm: True
      then obtain status where Inr: "r = Inr status" by (auto simp: terminal_def)
      let ?st2 = "st\<lparr>described := described st @ [(arn, r)],
                     stdout := stdout st @
                          [(if status = ''ACTIVE'' then ''Build succeeded for '' else ''Build failed for '') @ arn],
                     in_progress_campaigns := remove1 arn (in_progress_campaigns st)\<rparr>"
      have P2: "P ?st2" by (rule assms(3) [OF less.prems mem tm])
      have "P (snd (for_campaigns describe (i + 1) ?st2))"
        using True mem by (intro less.hyps P2) (simp add: length_remove1)
      then show ?thesis using True Inr tm
        by (subst for_campaigns_unfold) (simp add: Let_def arn_def [symmetric] r_def [symmetric])
    qed
  qed
qed

lemma for_campaigns_now: "now (snd (for_campaigns describe i st)) = now st"
  by (rule for_campaigns_induct_inv [where P = "\<lambda>s. now s = now st"]) simp_all

text \<open>
  \<^verbatim>\<open>
  while time.time() < max_time:
      for campaign_arn in in_progress_campaigns:
          ...
      if len(in_progress_campaigns) <= 0:
          break
      else:
          print("At least one campaign build is still in progress")

      time.sleep(60)
  \<close>
\<close>

function wait_loop :: "describe_campaign \<Rightarrow> nat \<Rightarrow> wait_state \<Rightarrow> (pyerr + unit) \<times> wait_state" where
  "wait_loop describe max_time st =
     (if now st < max_time then
        (case for_campaigns describe 0 st of
           (Inl e, st1) \<Rightarrow> (Inl e, st1)
         | (Inr u, st1) \<Rightarrow>
             if length (in_progress_campaigns st1) \<le> 0 then (Inr (), st1)
             else wait_loop describe max_time
                    (st1\<lparr>stdout := stdout st1 @ [''At least one campaign build is still in progress''],
                         now := now st1 + 60\<rparr>))
      else (Inr (), st))"
  by pat_completeness auto

termination wait_loop
proof (relation "measure (\<lambda>(describe, max_time, st). max_time - now st)", goal_cases)
  case 1
  show ?case by simp
next
  case (2 describe max_time st x y u)
  then have "y = snd (for_campaigns describe 0 st)" by (metis snd_conv)
  then have "now y = now st" by (simp add: for_campaigns_now)
  with 2 show ?case by simp
qed

declare wait_loop.simps [simp del]

text \<open>
  \<^verbatim>\<open>
  in_progress_campaigns = [
      userpersonalization_campaign_arn,
      sims_campaign_arn,
      rerank_campaign_arn
  ]

  max_time = time.time() + 3*60*60 # 3 hours
  \<close>
  followed by the loop; \<open>t0\<close> is the time at the start and \<open>arns\<close> the list.
\<close>

definition campaign_wait :: "describe_campaign \<Rightarrow> nat \<Rightarrow> string list \<Rightarrow> (pyerr + unit) \<times> wait_state" where
  "campaign_wait describe t0 arns =
     wait_loop describe (t0 + 3 * 60 * 60)
       \<lparr>in_progress_campaigns = arns, now = t0, described = [], stdout = []\<rparr>"

text \<open>
  The loop's invariant: the list has no duplicates, no campaign was described again after
  a terminal status, and no campaign with a terminal status in the log is still listed.
\<close>

definition removed_when_terminal :: "wait_state \<Rightarrow> bool" where
  "removed_when_terminal st \<longleftrightarrow>
     distinct (in_progress_campaigns st)
     \<and> \<not> polled_after_terminal (described st)
     \<and> (\<forall>i < length (described st). terminal (snd (described st ! i))
           \<longrightarrow> fst (described st ! i) \<notin> set (in_progress_campaigns st))"

text \<open>
  An example service: \<open>up\<close> is deployed at once; the other two are pending during the
  first two describe calls, then \<open>sims\<close> has failed and \<open>rerank\<close> is deployed.
\<close>

definition ex_remote :: describe_campaign where
  "ex_remote k arn = Inr (status_desc ''campaign''
     (if arn = ''up'' then ''ACTIVE''
      else if k < 2 then ''CREATE PENDING''
      else if arn = ''sims'' then ''CREATE FAILED'' else ''ACTIVE''))"


section \<open>Completion predicates for several jobs\<close>

text \<open>
  The state the two predicates below work on: the global list \<^verbatim>\<open>waiting_arns\<close>, the ARNs
  the describe call was made for so far, oldest first, and the lines printed.
\<close>

record job_state =
  waiting_arns :: "string list"
  requested :: "string list"
  printed :: "string list"

text \<open>
  The service: what the describe call answers for an ARN, given how many describe calls
  came before. It may raise.
\<close>

type_synonym describe_job = "nat \<Rightarrow> string \<Rightarrow> pyerr + desc"

text \<open>
  The iterable a predicate is given. At both call sites it is
  \<^verbatim>\<open>map(lambda arn: personalize.describe_...(...Arn=arn), waiting_arns)\<close>: a lazy iterator
  over the live list \<^verbatim>\<open>waiting_arns\<close>, which makes the describe call for element \<open>i\<close> only
  when that element is asked for; \<open>MapOverWaiting describe i\<close> is that iterator with its
  index at \<open>i\<close>. \<open>Listed ds\<close> is a list of descriptions already fetched.
\<close>

datatype descriptions = Listed "desc list" | MapOverWaiting describe_job nat

text \<open>\<^verbatim>\<open>next(it)\<close>: None is StopIteration; otherwise what is yielded or raised.\<close>

fun next_description ::
  "descriptions \<Rightarrow> job_state \<Rightarrow> ((pyerr + desc) \<times> descriptions \<times> job_state) option" where
  "next_description (Listed []) w = None"
| "next_description (Listed (d # ds)) w = Some (Inr d, Listed ds, w)"
| "next_description (MapOverWaiting describe i) w =
     (if i < length (waiting_arns w) then
        (let arn = waiting_arns w ! i in
         Some (describe (length (requested w)) arn, MapOverWaiting describe (i + 1),
               w\<lparr>requested := requested w @ [arn]\<rparr>))
      else None)"

text \<open>How many more items the iterator can yield at most: the measure of the loop below.\<close>

fun remaining :: "descriptions \<Rightarrow> job_state \<Rightarrow> nat" where
  "remaining (Listed ds) w = length ds"
| "remaining (MapOverWaiting describe i) w = length (waiting_arns w) - i"

lemma next_description_shrinks:
  assumes "next_description it w = Some (r, it', w')"
      and "length (waiting_arns w2) \<le> length (waiting_arns w)"
  shows "remaining it' w2 < remaining it w"
  using assms
  by (cases "(it, w)" rule: next_description.cases) (auto simp: Let_def split: if_splits)

lemma next_description_waiting:
  "next_description it w = Some (r, it', w') \<Longrightarrow> waiting_arns w' = waiting_arns w"
  by (cases "(it, w)" rule: next_description.cases) (auto simp: Let_def split: if_splits)

lemma next_description_remaining:
  assumes "next_description it w = Some (r, it', w')"
  shows "waiting_arns w' = waiting_arns w \<and> printed w' = printed w
       \<and> (\<forall>w2. length (waiting_arns w2) \<le> length (waiting_arns w) \<longrightarrow> remaining it' w2 < remaining it w)"
  using assms
  by (cases "(it, w)" rule: next_description.cases) (auto simp: Let_def split: if_splits)

text \<open>
  The loop the two predicates share; they differ in the keys they read, in the message of
  the ValueError and in what they print for a finished job (\<open>announce\<close>):
  \<^verbatim>\<open>
  for desc in descriptions:
      status = desc[key]["status"]
      arn = desc[key][arn_key]
      if status == "ACTIVE":
          print(...)                     # are_solutions_finished only
          waiting_arns.remove(arn)
      elif "FAILED" in status:
          raise ValueError(f"<failure>\n{desc}")
  \<close>
\<close>

function for_descriptions ::
  "string \<Rightarrow> string \<Rightarrow> string \<Rightarrow> (string \<Rightarrow> string list) \<Rightarrow> descriptions \<Rightarrow> job_state
     \<Rightarrow> (pyerr + unit) \<times> job_state" where
  "for_descriptions key arn_key failure announce it w =
     (case next_description it w of
        None \<Rightarrow> (Inr (), w)
      | Some (Inl e, it', w') \<Rightarrow> (Inl e, w')
      | Some (Inr desc, it', w') \<Rightarrow>
          (case getitem2 desc key ''status'' of
             Inl e \<Rightarrow> (Inl e, w')
           | Inr status \<Rightarrow>
               (case getitem2 desc key arn_key of
                  Inl e \<Rightarrow> (Inl e, w')
                | Inr arn \<Rightarrow>
                    if status = ''ACTIVE'' then
                      (let w2 = w'\<lparr>printed := printed w' @ announce arn\<rparr> in
                       case list_remove arn (waiting_arns w2) of
                         Inl e \<Rightarrow> (Inl e, w2)
                       | Inr rest \<Rightarrow>
                           for_descriptions key arn_key failure announce it'
                             (w2\<lparr>waiting_arns := rest\<rparr>))
                    else if str_in ''FAILED'' status then
                      (Inl (ValueError (failure @ newline) (Some desc)), w')
                    else for_descriptions key arn_key failure announce it' w')))"
  by pat_completeness auto
termination
  apply (relation "measure (\<lambda>(key, arn_key, failure, announce, it, w). remaining it w)")
    apply simp
   apply (auto simp: list_remove_def length_remove1 split: if_splits
      intro!: next_description_shrinks dest: next_description_waiting)
  done

declare for_descriptions.simps [simp del]

text \<open>
  \<^verbatim>\<open>
  waiting_arns = [interactions_import_job_arn, items_import_job_arn]

  def are_imports_finished(descriptions):
      for desc in descriptions:
          status = desc["datasetImportJob"]["status"]
          arn = desc["datasetImportJob"]["datasetImportJobArn"]
          if status == "ACTIVE":
              waiting_arns.remove(arn)
          elif "FAILED" in status:
              raise ValueError(f"Data import failed!\n{desc}")
      if not len(waiting_arns):
          return True
  \<close>
\<close>

definition are_imports_finished :: "descriptions \<Rightarrow> job_state \<Rightarrow> (pyerr + bool option) \<times> job_state" where
  "are_imports_finished descriptions w =
     (case for_descriptions ''datasetImportJob'' ''datasetImportJobArn'' ''Data import failed!''
             (\<lambda>arn. []) descriptions w of
        (Inl e, w') \<Rightarrow> (Inl e, w')
      | (Inr u, w') \<Rightarrow>
          (if \<not> (length (waiting_arns w') \<noteq> 0) then Inr (Some True) else Inr None, w'))"

text \<open>
  \<^verbatim>\<open>
  def are_solutions_finished(descriptions):
      for desc in descriptions:
          status = desc["solutionVersion"]["status"]
          arn = desc["solutionVersion"]["solutionVersionArn"]
          if status == "ACTIVE":
              print(f"\nTrained {arn}")
              waiting_arns.remove(arn)
          elif "FAILED" in status:
              raise ValueError(f"Build failed!\n{desc}")
      if not len(waiting_arns):
          return True
  \<close>
\<close>

definition are_solutions_finished :: "descriptions \<Rightarrow> job_state \<Rightarrow> (pyerr + bool option) \<times> job_state" where
  "are_solutions_finished descriptions w =
     (case for_descriptions ''solutionVersion'' ''solutionVersionArn'' ''Build failed!''
             (\<lambda>arn. [newline @ ''Trained '' @ arn]) descriptions w of
        (Inl e, w') \<Rightarrow> (Inl e, w')
      | (Inr u, w') \<Rightarrow>
          (if \<not> (length (waiting_arns w') \<noteq> 0) then Inr (Some True) else Inr None, w'))"

text \<open>A describe response for one job: its status and its ARN.\<close>

definition job_desc :: "string \<Rightarrow> string \<Rightarrow> string \<Rightarrow> string \<Rightarrow> desc" where
  "job_desc key arn_key arn status = [key \<mapsto> [''status'' \<mapsto> status, arn_key \<mapsto> arn]]"

text \<open>An example service on which every import job is \<open>ACTIVE\<close> from the start.\<close>

definition all_active :: describe_job where
  "all_active k arn = Inr (job_desc ''datasetImportJob'' ''datasetImportJobArn'' arn ''ACTIVE'')"


text \<open>
  What the loop above reads in one evaluation: the items the iterator yields to it, in
  order. It follows the loop step by step, with the same tests and the same removals, and
  ends where the loop ends. For the lazy map these are the answers to the describe calls
  that the loop itself records in \<open>requested\<close> (\<open>descriptions_read_lazy\<close> below).
\<close>

function descriptions_read ::
  "string \<Rightarrow> string \<Rightarrow> descriptions \<Rightarrow> job_state \<Rightarrow> (pyerr + desc) list" where
  "descriptions_read key arn_key it w =
     (case next_description it w of
        None \<Rightarrow> []
      | Some (Inl e, it', w') \<Rightarrow> [Inl e]
      | Some (Inr desc, it', w') \<Rightarrow>
          Inr desc #
          (case getitem2 desc key ''status'' of
             Inl e \<Rightarrow> []
           | Inr status \<Rightarrow>
               (case getitem2 desc key arn_key of
                  Inl e \<Rightarrow> []
                | Inr arn \<Rightarrow>
                    if status = ''ACTIVE'' then
                      (case list_remove arn (waiting_arns w') of
                         Inl e \<Rightarrow> []
                       | Inr rest \<Rightarrow>
                           descriptions_read key arn_key it' (w'\<lparr>waiting_arns := rest\<rparr>))
                    else if str_in ''FAILED'' status then []
                    else descriptions_read key arn_key it' w')))"
  by pat_completeness auto
termination
  apply (relation "measure (\<lambda>(key, arn_key, it, w). remaining it w)")
    apply simp
   apply (auto simp: list_remove_def length_remove1 split: if_splits
      intro!: next_description_shrinks dest: next_description_waiting)
  done

declare descriptions_read.simps [simp del]

text \<open>Whether one of the descriptions read has the status \<open>ACTIVE\<close> under \<open>key\<close>.\<close>

definition reads_active :: "string \<Rightarrow> string \<Rightarrow> descriptions \<Rightarrow> job_state \<Rightarrow> bool" where
  "reads_active key arn_key it w =
     list_ex (\<lambda>r. case r of Inl e \<Rightarrow> False | Inr d \<Rightarrow> getitem2 d key ''status'' = Inr ''ACTIVE'')
       (descriptions_read key arn_key it w)"

text \<open>
  Examples: a service on which every solution version is \<open>ACTIVE\<close>, two waiting ARNs, and
  services on which a job is pending during the first two describe calls and \<open>ACTIVE\<close>
  afterwards.
\<close>

definition all_trained :: describe_job where
  "all_trained k arn = Inr (job_desc ''solutionVersion'' ''solutionVersionArn'' arn ''ACTIVE'')"

definition two_waiting :: job_state where
  "two_waiting = \<lparr>waiting_arns = [''a'', ''b''], requested = [], printed = []\<rparr>"

definition imports_pending_twice :: describe_job where
  "imports_pending_twice calls arn =
     Inr (job_desc ''datasetImportJob'' ''datasetImportJobArn'' arn
       (if calls < 2 then ''CREATE PENDING'' else ''ACTIVE''))"

definition solutions_pending_twice :: describe_job where
  "solutions_pending_twice calls arn =
     Inr (job_desc ''solutionVersion'' ''solutionVersionArn'' arn
       (if calls < 2 then ''CREATE PENDING'' else ''ACTIVE''))"


section \<open>The polling spinner\<close>

text \<open>
  Modelled from the spec: the three outcomes of a Completion Predicate (\<^verbatim>\<open>util/progress.py\<close>,
  which defines \<^verbatim>\<open>polling_spinner\<close>, is not among the sources).
\<close>

datatype verdict = NotYetFinished | FinishedSuccessfully | FinishedFatalFailure

text \<open>
  Modelled from the spec: the errors \<^verbatim>\<open>polling_spinner\<close> ends with. \<open>JobFailed\<close> and
  \<open>PollingTimedOut\<close> carry the last Status Snapshot; \<open>Propagated e\<close> is the error \<open>e\<close> of the
  status-producing operation, passed through as it is.
\<close>

datatype ('e, 's) spinner_error = JobFailed 's | PollingTimedOut 's | Propagated 'e

text \<open>
  Modelled from the spec: what \<^verbatim>\<open>polling_spinner\<close> does, in order. \<open>Fetch t r\<close>: the
  status-producing operation was invoked \<open>t\<close> seconds after the first invocation and gave
  \<open>r\<close>; \<open>Classify s v\<close>: the predicate was applied to \<open>s\<close> and gave \<open>v\<close>; \<open>Display s line\<close>:
  the formatter was applied to \<open>s\<close> and the line written; \<open>Sleep d\<close>: suspended for \<open>d\<close>
  seconds.
\<close>

datatype ('e, 's) spinner_event =
  Fetch nat "'e + 's" | Classify 's verdict | Display 's string | Sleep nat

text \<open>
  Modelled from the spec: the state of \<^verbatim>\<open>polling_spinner\<close>'s loop. \<open>world\<close> is everything
  the three callbacks read and change (the remote service, the caller's globals);
  \<open>elapsed\<close> is the time since the first invocation, in seconds (in \<open>spinner_loop\<close> only the
  suspension advances it, in \<open>timed_spinner_loop\<close> the fetches do too); \<open>fetches\<close> counts the invocations of the status-producing operation;
  \<open>progress\<close> is the text written.
\<close>

record ('e, 's, 'w) spinner_state =
  world :: 'w
  elapsed :: nat
  fetches :: nat
  progress :: "string list"
  trace :: "('e, 's) spinner_event list"

text \<open>
  Modelled from the spec: the loop of \<^verbatim>\<open>polling_spinner\<close> (section 4.1): invoke the
  status-producing operation, at once the first time; an error of it ends the loop with
  that error. Apply the Completion Predicate: on success return, on fatal failure fail
  with \<open>JobFailed\<close>. Otherwise write the formatter's line, suspend for the poll interval,
  and repeat, unless the time elapsed since the first invocation now exceeds the timeout:
  then fail with \<open>PollingTimedOut\<close>. The callbacks are Python closures, so each takes the
  world and the first two return it changed. A loop that never ends is the value None.
  Here the callbacks take no time: the clock is advanced by the suspension only.
\<close>

partial_function (option) spinner_loop ::
  "('w \<Rightarrow> ('e + 's) \<times> 'w) \<Rightarrow> ('s \<Rightarrow> 'w \<Rightarrow> verdict \<times> 'w) \<Rightarrow> ('s \<Rightarrow> 'w \<Rightarrow> string) \<Rightarrow> nat \<Rightarrow> nat
     \<Rightarrow> ('e, 's, 'w) spinner_state
     \<Rightarrow> ((('e, 's) spinner_error + unit) \<times> ('e, 's, 'w) spinner_state) option" where
  "spinner_loop fn_poll_result fn_is_finished fn_stringify_result poll_secs timeout_secs st =
     (case fn_poll_result (world st) of
        (fetched, w1) \<Rightarrow>
          (let st1 = st\<lparr>world := w1, fetches := fetches st + 1,
                         trace := trace st @ [Fetch (elapsed st) fetched]\<rparr> in
           case fetched of
             Inl e \<Rightarrow> Some (Inl (Propagated e), st1)
           | Inr snapshot \<Rightarrow>
               (case fn_is_finished snapshot w1 of
                  (v, w2) \<Rightarrow>
                    (let st2 = st1\<lparr>world := w2, trace := trace st1 @ [Classify snapshot v]\<rparr> in
                     case v of
                       FinishedSuccessfully \<Rightarrow> Some (Inr (), st2)
                     | FinishedFatalFailure \<Rightarrow> Some (Inl (JobFailed snapshot), st2)
                     | NotYetFinished \<Rightarrow>
                         (let line = fn_stringify_result snapshot w2;
                              st3 = st2\<lparr>progress := progress st2 @ [line],
                                        trace := trace st2 @ [Display snapshot line, Sleep poll_secs],
                                        elapsed := elapsed st2 + poll_secs\<rparr> in
                          if elapsed st3 > timeout_secs
                          then Some (Inl (PollingTimedOut snapshot), st3)
                          else spinner_loop fn_poll_result fn_is_finished fn_stringify_result
                                 poll_secs timeout_secs st3)))))"


text \<open>
  Modelled from the spec: \<^verbatim>\<open>util.progress.polling_spinner(fn_poll_result, fn_is_finished,
  fn_stringify_result, poll_secs, timeout_secs)\<close>, started in world \<open>w\<close>.
\<close>

definition polling_spinner ::
  "('w \<Rightarrow> ('e + 's) \<times> 'w) \<Rightarrow> ('s \<Rightarrow> 'w \<Rightarrow> verdict \<times> 'w) \<Rightarrow> ('s \<Rightarrow> 'w \<Rightarrow> string) \<Rightarrow> nat \<Rightarrow> nat
     \<Rightarrow> 'w \<Rightarrow> ((('e, 's) spinner_error + unit) \<times> ('e, 's, 'w) spinner_state) option" where
  "polling_spinner fn_poll_result fn_is_finished fn_stringify_result poll_secs timeout_secs w =
     spinner_loop fn_poll_result fn_is_finished fn_stringify_result poll_secs timeout_secs
       \<lparr>world = w, elapsed = 0, fetches = 0, progress = [], trace = []\<rparr>"

text \<open>
  Modelled from the spec: the same loop on a wall clock. The spec measures the elapsed
  wall-clock time since the first invocation, and the status-producing operation does
  network I/O: \<open>fetch_secs w\<close> is the time the invocation made in world \<open>w\<close> takes. With
  \<open>fetch_secs\<close> zero everywhere this is \<open>spinner_loop\<close> (\<open>timed_zero_latency\<close> below).
\<close>

partial_function (option) timed_spinner_loop ::
  "('w \<Rightarrow> nat) \<Rightarrow> ('w \<Rightarrow> ('e + 's) \<times> 'w) \<Rightarrow> ('s \<Rightarrow> 'w \<Rightarrow> verdict \<times> 'w) \<Rightarrow> ('s \<Rightarrow> 'w \<Rightarrow> string)
     \<Rightarrow> nat \<Rightarrow> nat \<Rightarrow> ('e, 's, 'w) spinner_state
     \<Rightarrow> ((('e, 's) spinner_error + unit) \<times> ('e, 's, 'w) spinner_state) option" where
  "timed_spinner_loop fetch_secs fn_poll_result fn_is_finished fn_stringify_result
       poll_secs timeout_secs st =
     (case fn_poll_result (world st) of
        (fetched, w1) \<Rightarrow>
          (let st1 = st\<lparr>world := w1, fetches := fetches st + 1,
                         trace := trace st @ [Fetch (elapsed st) fetched],
                         elapsed := elapsed st + fetch_secs (world st)\<rparr> in
           case fetched of
             Inl e \<Rightarrow> Some (Inl (Propagated e), st1)
           | Inr snapshot \<Rightarrow>
               (case fn_is_finished snapshot w1 of
                  (v, w2) \<Rightarrow>
                    (let st2 = st1\<lparr>world := w2, trace := trace st1 @ [Classify snapshot v]\<rparr> in
                     case v of
                       FinishedSuccessfully \<Rightarrow> Some (Inr (), st2)
                     | FinishedFatalFailure \<Rightarrow> Some (Inl (JobFailed snapshot), st2)
                     | NotYetFinished \<Rightarrow>
                         (let line = fn_stringify_result snapshot w2;
                              st3 = st2\<lparr>progress := progress st2 @ [line],
                                        trace := trace st2 @ [Display snapshot line, Sleep poll_secs],
                                        elapsed := elapsed st2 + poll_secs\<rparr> in
                          if elapsed st3 > timeout_secs
                          then Some (Inl (PollingTimedOut snapshot), st3)
                          else timed_spinner_loop fetch_secs fn_poll_result fn_is_finished
                                 fn_stringify_result poll_secs timeout_secs st3)))))"


text \<open>
  Modelled from the spec: how \<^verbatim>\<open>polling_spinner\<close> reads what a Python predicate of the
  notebooks does: returning True is "finished successfully", raising is "finished with
  fatal failure", returning None is "not yet finished".
\<close>

definition py_verdict :: "pyerr + bool option \<Rightarrow> verdict" where
  "py_verdict r =
     (case r of
        Inl e \<Rightarrow> FinishedFatalFailure
      | Inr (Some True) \<Rightarrow> FinishedSuccessfully
      | Inr other \<Rightarrow> NotYetFinished)"

text \<open>
  One iteration without the display: the fetch and, when it gave a snapshot, its
  classification, from world \<open>w\<close>.
\<close>

definition iteration ::
  "('w \<Rightarrow> ('e + 's) \<times> 'w) \<Rightarrow> ('s \<Rightarrow> 'w \<Rightarrow> verdict \<times> 'w) \<Rightarrow> 'w \<Rightarrow> ('e + 's \<times> verdict) \<times> 'w" where
  "iteration fn_poll_result fn_is_finished w =
     (case fn_poll_result w of
        (Inl e, w1) \<Rightarrow> (Inl e, w1)
      | (Inr snapshot, w1) \<Rightarrow>
          (case fn_is_finished snapshot w1 of (v, w2) \<Rightarrow> (Inr (snapshot, v), w2)))"

text \<open>The world before iteration \<open>k\<close> (counting from 0), when all earlier ones were run.\<close>

fun world_before ::
  "('w \<Rightarrow> ('e + 's) \<times> 'w) \<Rightarrow> ('s \<Rightarrow> 'w \<Rightarrow> verdict \<times> 'w) \<Rightarrow> 'w \<Rightarrow> nat \<Rightarrow> 'w" where
  "world_before fn_poll_result fn_is_finished w 0 = w"
| "world_before fn_poll_result fn_is_finished w (Suc k) =
     snd (iteration fn_poll_result fn_is_finished (world_before fn_poll_result fn_is_finished w k))"

text \<open>What invocation \<open>k + 1\<close> of the status-producing operation and the predicate give.\<close>

definition observed ::
  "('w \<Rightarrow> ('e + 's) \<times> 'w) \<Rightarrow> ('s \<Rightarrow> 'w \<Rightarrow> verdict \<times> 'w) \<Rightarrow> 'w \<Rightarrow> nat \<Rightarrow> 'e + 's \<times> verdict" where
  "observed fn_poll_result fn_is_finished w k =
     fst (iteration fn_poll_result fn_is_finished (world_before fn_poll_result fn_is_finished w k))"

text \<open>The times at which the status-producing operation was invoked, in a trace.\<close>

fun fetch_times :: "('e, 's) spinner_event list \<Rightarrow> nat list" where
  "fetch_times [] = []"
| "fetch_times (Fetch t r # es) = t # fetch_times es"
| "fetch_times (ev # es) = fetch_times es"

text \<open>
  A trace in which every iteration is one fetch, then the predicate on the snapshot that
  fetch gave and, when the predicate said "not yet finished", the formatter on that same
  snapshot, then the suspension; nothing follows a terminal verdict or a failed fetch.
\<close>

fun same_snapshot :: "('e, 's) spinner_event list \<Rightarrow> bool" where
  "same_snapshot [] = True"
| "same_snapshot [Fetch t (Inl e)] = True"
| "same_snapshot (Fetch t (Inr s) # Classify s' v # es) =
     (s' = s \<and>
      (case v of
         NotYetFinished \<Rightarrow>
           (case es of
              Display s'' line # Sleep d # es' \<Rightarrow> s'' = s \<and> same_snapshot es'
            | _ \<Rightarrow> False)
       | _ \<Rightarrow> es = []))"
| "same_snapshot es = False"


section \<open>The notebooks' calls of the polling spinner\<close>

text \<open>
  A formatter such as \<^verbatim>\<open>lambda d: d["datasetGroup"]["status"]\<close> is only reached after the
  predicate has read the same key of the same response, so the subscript cannot raise
  there; the text is empty in the case that does not occur.
\<close>

definition text_or_empty :: "pyerr + string \<Rightarrow> string" where
  "text_or_empty r = (case r of Inl e \<Rightarrow> [] | Inr s \<Rightarrow> s)"

text \<open>
  \<^verbatim>\<open>
  util.progress.polling_spinner(
      fn_poll_result=lambda: personalize.describe_dataset_group(datasetGroupArn=dataset_group_arn),
      fn_is_finished=is_dsg_ready,
      fn_stringify_result=lambda d: d["datasetGroup"]["status"],
      poll_secs=20,
      timeout_secs=20*60,  # Max 20 mins
  )
  \<close>
  The world is the number of describe calls made so far; the argument is what the service
  answers to each.
\<close>

definition wait_for_dataset_group ::
  "(nat \<Rightarrow> pyerr + desc) \<Rightarrow> (((pyerr, desc) spinner_error + unit) \<times> (pyerr, desc, nat) spinner_state) option" where
  "wait_for_dataset_group describe_dataset_group =
     polling_spinner
       (\<lambda>calls. (describe_dataset_group calls, Suc calls))
       (\<lambda>d calls. (py_verdict (is_dsg_ready d), calls))
       (\<lambda>d calls. text_or_empty (getitem2 d ''datasetGroup'' ''status''))
       20 (20 * 60) 0"

text \<open>
  \<^verbatim>\<open>
  util.progress.polling_spinner(
      fn_poll_result=lambda: personalize.describe_dataset(datasetArn=interactions_dataset_arn),
      fn_is_finished=is_ds_ready,
      fn_stringify_result=lambda d: d["dataset"]["status"],
      poll_secs=20,
      timeout_secs=20*60,  # Max 20 mins
  )
  \<close>
\<close>

definition wait_for_dataset ::
  "(nat \<Rightarrow> pyerr + desc) \<Rightarrow> (((pyerr, desc) spinner_error + unit) \<times> (pyerr, desc, nat) spinner_state) option" where
  "wait_for_dataset describe_dataset =
     polling_spinner
       (\<lambda>calls. (describe_dataset calls, Suc calls))
       (\<lambda>d calls. (py_verdict (is_ds_ready d), calls))
       (\<lambda>d calls. text_or_empty (getitem2 d ''dataset'' ''status''))
       20 (20 * 60) 0"

text \<open>
  \<^verbatim>\<open>
  util.progress.polling_spinner(
      fn_poll_result=lambda: personalize.describe_batch_inference_job(
          batchInferenceJobArn=batch_job_arn,
      ),
      fn_is_finished=is_batch_job_finished,
      fn_stringify_result=lambda d: d["batchInferenceJob"]["status"],
      poll_secs=30,
      timeout_secs=60*60,  # Max 1 hour
  )
  \<close>
\<close>

definition wait_for_batch_job ::
  "(nat \<Rightarrow> pyerr + desc) \<Rightarrow> (((pyerr, desc) spinner_error + unit) \<times> (pyerr, desc, nat) spinner_state) option" where
  "wait_for_batch_job describe_batch_inference_job =
     polling_spinner
       (\<lambda>calls. (describe_batch_inference_job calls, Suc calls))
       (\<lambda>d calls. (py_verdict (is_batch_job_finished d), calls))
       (\<lambda>d calls. text_or_empty (getitem2 d ''batchInferenceJob'' ''status''))
       30 (60 * 60) 0"

text \<open>
  \<^verbatim>\<open>
  util.progress.polling_spinner(
      fn_poll_result=lambda: map(
          lambda arn: personalize.describe_dataset_import_job(datasetImportJobArn=arn),
          waiting_arns,
      ),
      fn_is_finished=are_imports_finished,
      fn_stringify_result=lambda d: f"{len(waiting_arns)} imports in progress",
      poll_secs=30,
      timeout_secs=60*60,  # Max 1 hour
  )
  \<close>
  The fetch only builds the lazy map; the describe calls are made when the predicate
  iterates over it. The formatter does not read its argument.
\<close>

definition wait_for_imports ::
  "describe_job \<Rightarrow> string list
     \<Rightarrow> (((pyerr, descriptions) spinner_error + unit) \<times> (pyerr, descriptions, job_state) spinner_state) option" where
  "wait_for_imports describe_dataset_import_job arns =
     polling_spinner
       (\<lambda>w. (Inr (MapOverWaiting describe_dataset_import_job 0), w))
       (\<lambda>descriptions w. case are_imports_finished descriptions w of (r, w') \<Rightarrow> (py_verdict r, w'))
       (\<lambda>d w. str_nat (length (waiting_arns w)) @ '' imports in progress'')
       30 (60 * 60) \<lparr>waiting_arns = arns, requested = [], printed = []\<rparr>"

text \<open>
  \<^verbatim>\<open>
  util.progress.polling_spinner(
      fn_poll_result=lambda: map(
          lambda arn: personalize.describe_solution_version(solutionVersionArn=arn),
          waiting_arns,
      ),
      fn_is_finished=are_solutions_finished,
      fn_stringify_result=lambda d: f"{len(waiting_arns)} models in progress",
      poll_secs=60,
      timeout_secs=4*60*60,  # Max 4 hours
  )
  \<close>
\<close>

definition wait_for_solutions ::
  "describe_job \<Rightarrow> string list
     \<Rightarrow> (((pyerr, descriptions) spinner_error + unit) \<times> (pyerr, descriptions, job_state) spinner_state) option" where
  "wait_for_solutions describe_solution_version arns =
     polling_spinner
       (\<lambda>w. (Inr (MapOverWaiting describe_solution_version 0), w))
       (\<lambda>descriptions w. case are_solutions_finished descriptions w of (r, w') \<Rightarrow> (py_verdict r, w'))
       (\<lambda>d w. str_nat (length (waiting_arns w)) @ '' models in progress'')
       60 (4 * 60 * 60) \<lparr>waiting_arns = arns, requested = [], printed = []\<rparr>"

text \<open>
  Example services: a dataset group ready at the third describe call, a batch job that
  has failed at the second, one that never finishes, and a dataset whose second describe
  call is refused.
\<close>

definition group_ready_third :: "nat \<Rightarrow> pyerr + desc" where
  "group_ready_third calls =
     Inr (status_desc ''datasetGroup'' (if calls < 2 then ''CREATE PENDING'' else ''ACTIVE''))"

definition batch_job_fails_second :: "nat \<Rightarrow> pyerr + desc" where
  "batch_job_fails_second calls =
     Inr (status_desc ''batchInferenceJob''
       (if calls < 1 then ''CREATE IN_PROGRESS'' else ''CREATE FAILED''))"


definition dataset_throttled_second :: "nat \<Rightarrow> pyerr + desc" where
  "dataset_throttled_second calls =
     (if calls < 1 then Inr (status_desc ''dataset'' ''CREATE PENDING'')
      else Inl (ClientError ''ThrottlingException''))"


section \<open>Facts about the single-job predicates\<close>

lemma str_in_sublist: "str_in sub s = sublist sub s"
  by (induction s) (auto simp: sublist_Cons_right)

lemma getitem2_status_desc [simp]: "getitem2 (status_desc k status) k ''status'' = Inr status"
  by (simp add: getitem2_def getitem_def status_desc_def)

text \<open>
  C4, as stated, for the dataset predicate: the status \<open>FAILED\<close> is not \<open>ACTIVE\<close> and
  contains \<open>FAILED\<close>, and \<open>is_ds_ready\<close> returns None on it instead of raising: it looks
  for \<open>CREATE FAILED\<close>.
\<close>

theorem is_ds_ready_failed_counterexample:
  "''FAILED'' \<noteq> ''ACTIVE'' \<and> sublist ''FAILED'' ''FAILED''
   \<and> is_ds_ready (status_desc ''dataset'' ''FAILED'') = Inr None"
  by (simp add: is_ds_ready_def)

text \<open>
  C4, amended: on a response that holds the status, each predicate returns True exactly
  when the status is \<open>ACTIVE\<close>; \<open>is_dsg_ready\<close> and \<open>is_batch_job_finished\<close> raise
  ValueError exactly when the status is not \<open>ACTIVE\<close> and contains \<open>FAILED\<close>, and
  \<open>is_ds_ready\<close> exactly when it is not \<open>ACTIVE\<close> and contains \<open>CREATE FAILED\<close>; in every
  other case the predicate returns None.
\<close>

theorem completion_predicates_outcome:
  "(getitem2 desc ''datasetGroup'' ''status'' = Inr status \<longrightarrow>
      is_dsg_ready desc =
        (if status = ''ACTIVE'' then Inr (Some True)
         else if sublist ''FAILED'' status
           then Inl (ValueError (''Failed to create Dataset Group!'' @ newline) (Some desc))
         else Inr None))
   \<and> (getitem2 desc ''dataset'' ''status'' = Inr status \<longrightarrow>
      is_ds_ready desc =
        (if status = ''ACTIVE'' then Inr (Some True)
         else if sublist ''CREATE FAILED'' status
           then Inl (ValueError (''Failed to create Dataset!'' @ newline) (Some desc))
         else Inr None))
   \<and> (getitem2 desc ''batchInferenceJob'' ''status'' = Inr status \<longrightarrow>
      is_batch_job_finished desc =
        (if status = ''ACTIVE'' then Inr (Some True)
         else if sublist ''FAILED'' status
           then Inl (ValueError (''Batch job failed!'' @ newline) (Some desc))
         else Inr None))"
  by (simp add: is_dsg_ready_def is_ds_ready_def is_batch_job_finished_def str_in_sublist)

theorem completion_predicates_outcome_witness:
  "getitem2 (status_desc ''datasetGroup'' ''CREATE FAILED'') ''datasetGroup'' ''status''
     = Inr ''CREATE FAILED''
   \<and> is_dsg_ready (status_desc ''datasetGroup'' ''CREATE FAILED'')
     = Inl (ValueError (''Failed to create Dataset Group!'' @ newline)
         (Some (status_desc ''datasetGroup'' ''CREATE FAILED'')))
   \<and> getitem2 (status_desc ''dataset'' ''CREATE PENDING'') ''dataset'' ''status''
     = Inr ''CREATE PENDING''
   \<and> is_ds_ready (status_desc ''dataset'' ''CREATE PENDING'') = Inr None
   \<and> getitem2 (status_desc ''batchInferenceJob'' ''ACTIVE'') ''batchInferenceJob'' ''status''
     = Inr ''ACTIVE''
   \<and> is_batch_job_finished (status_desc ''batchInferenceJob'' ''ACTIVE'') = Inr (Some True)"
  using completion_predicates_outcome
          [of "status_desc ''datasetGroup'' ''CREATE FAILED''" "''CREATE FAILED''"]
        completion_predicates_outcome
          [of "status_desc ''dataset'' ''CREATE PENDING''" "''CREATE PENDING''"]
        completion_predicates_outcome
          [of "status_desc ''batchInferenceJob'' ''ACTIVE''" "''ACTIVE''"]
  by (simp add: sublist_code)

section \<open>Facts about the lookups by name\<close>

lemma next_filter_name_find:
  "\<forall>c \<in> set cs. c ''name'' \<noteq> None \<Longrightarrow>
   next_filter_name wanted cs = Inr (find (\<lambda>c. c ''name'' = Some wanted) cs)"
  by (induction cs) (auto simp: getitem_def)

lemma names_of_total:
  "\<forall>c \<in> set cs. c ''name'' \<noteq> None \<Longrightarrow> names_of cs = Inr (map (\<lambda>c. the (c ''name'')) cs)"
  by (induction cs) (auto simp: getitem_def)

lemma lookup_by_name:
  assumes names: "\<forall>c \<in> set cs. c ''name'' \<noteq> None"
  shows "(case next_filter_name wanted cs of
            Inl e \<Rightarrow> Inl e
          | Inr (Some c) \<Rightarrow> getitem c arn_key
          | Inr None \<Rightarrow>
              (case names_of cs of
                 Inl e \<Rightarrow> Inl e
               | Inr ns \<Rightarrow> Inl (ValueError (not_found_message kind wanted ns) None)))
         = (case find (\<lambda>c. c ''name'' = Some wanted) cs of
              None \<Rightarrow>
                Inl (ValueError
                  (not_found_message kind wanted (map (\<lambda>c. the (c ''name'')) cs)) None)
            | Some c \<Rightarrow> getitem c arn_key)"
  by (simp add: next_filter_name_find [OF names] names_of_total [OF names]
        split: option.split)

lemma lookup_by_name_raises:
  assumes "r = (case find (\<lambda>c. c ''name'' = Some wanted) cs of
                  None \<Rightarrow> Inl (ValueError m None)
                | Some c \<Rightarrow> getitem c arn_key)"
  shows "is_ValueError r \<longleftrightarrow> (\<forall>c \<in> set cs. c ''name'' \<noteq> Some wanted)"
proof (cases "find (\<lambda>c. c ''name'' = Some wanted) cs")
  case None
  then have "\<forall>c \<in> set cs. c ''name'' \<noteq> Some wanted"
    by (auto simp: find_None_iff)
  then show ?thesis using assms None by simp
next
  case (Some c)
  then have "c \<in> set cs" "c ''name'' = Some wanted"
    by (auto simp: find_Some_iff)
  moreover have "\<not> is_ValueError (getitem c arn_key)"
    by (simp add: getitem_def split: option.split)
  ultimately show ?thesis using assms Some by auto
qed

lemma lookup_by_name_first:
  assumes "r = (case find (\<lambda>c. c ''name'' = Some wanted) cs of
                  None \<Rightarrow> Inl (ValueError m None)
                | Some c \<Rightarrow> getitem c arn_key)"
      and "i < length cs" and "(cs ! i) ''name'' = Some wanted"
      and "\<forall>j < i. (cs ! j) ''name'' \<noteq> Some wanted"
      and "(cs ! i) arn_key = Some arn"
  shows "r = Inr arn"
proof -
  have "find (\<lambda>c. c ''name'' = Some wanted) cs = Some (cs ! i)"
    using assms(2-4) by (auto simp: find_Some_iff)
  then show ?thesis using assms(1,5) by (simp add: getitem_def)
qed

text \<open>
  C10: on a list response whose summaries all have a name, \<open>get_campaign_arn_by_name\<close>
  raises ValueError exactly when no campaign of the list has the wanted name, and otherwise
  returns the \<open>campaignArn\<close> of the first campaign of the list that has it;
  \<open>get_filter_arn_by_name\<close> does the same over the filters and their \<open>filterArn\<close>.
\<close>

theorem arn_by_name_first_match:
  assumes "list_campaigns ''campaigns'' = Some cs"
      and "\<forall>c \<in> set cs. c ''name'' \<noteq> None"
      and "list_filters ''Filters'' = Some fs"
      and "\<forall>f \<in> set fs. f ''name'' \<noteq> None"
  shows "(is_ValueError (get_campaign_arn_by_name list_campaigns wanted)
            \<longleftrightarrow> (\<forall>c \<in> set cs. c ''name'' \<noteq> Some wanted))
       \<and> (\<forall>i arn. i < length cs \<and> (cs ! i) ''name'' = Some wanted
              \<and> (\<forall>j < i. (cs ! j) ''name'' \<noteq> Some wanted)
              \<and> (cs ! i) ''campaignArn'' = Some arn
            \<longrightarrow> get_campaign_arn_by_name list_campaigns wanted = Inr arn)
       \<and> (is_ValueError (get_filter_arn_by_name list_filters wanted)
            \<longleftrightarrow> (\<forall>f \<in> set fs. f ''name'' \<noteq> Some wanted))
       \<and> (\<forall>i arn. i < length fs \<and> (fs ! i) ''name'' = Some wanted
              \<and> (\<forall>j < i. (fs ! j) ''name'' \<noteq> Some wanted)
              \<and> (fs ! i) ''filterArn'' = Some arn
            \<longrightarrow> get_filter_arn_by_name list_filters wanted = Inr arn)"
proof -
  have c: "get_campaign_arn_by_name list_campaigns wanted
      = (case find (\<lambda>c. c ''name'' = Some wanted) cs of
           None \<Rightarrow>
             Inl (ValueError
               (not_found_message ''Campaign'' wanted (map (\<lambda>c. the (c ''name'')) cs)) None)
         | Some c \<Rightarrow> getitem c ''campaignArn'')"
    unfolding get_campaign_arn_by_name_def
    using lookup_by_name [OF assms(2), where wanted = wanted and arn_key = "''campaignArn''"
            and kind = "''Campaign''"] assms(1)
    by (simp add: getitem_def [of list_campaigns])
  have f: "get_filter_arn_by_name list_filters wanted
      = (case find (\<lambda>c. c ''name'' = Some wanted) fs of
           None \<Rightarrow>
             Inl (ValueError
               (not_found_message ''Filter'' wanted (map (\<lambda>c. the (c ''name'')) fs)) None)
         | Some c \<Rightarrow> getitem c ''filterArn'')"
    unfolding get_filter_arn_by_name_def
    using lookup_by_name [OF assms(4), where wanted = wanted and arn_key = "''filterArn''"
            and kind = "''Filter''"] assms(3)
    by (simp add: getitem_def [of list_filters])
  show ?thesis
    using lookup_by_name_raises [OF c] lookup_by_name_first [OF c]
          lookup_by_name_raises [OF f] lookup_by_name_first [OF f]
    by blast
qed

theorem arn_by_name_first_match_witness:
  "[''campaigns'' \<mapsto> example_campaigns] ''campaigns'' = Some example_campaigns
   \<and> map (\<lambda>c. c ''name'') example_campaigns
       = [Some ''personalize-movielens-up'', Some ''personalize-movielens-sims'',
          Some ''personalize-movielens-sims'']
   \<and> [''Filters'' \<mapsto> example_filters] ''Filters'' = Some example_filters
   \<and> map (\<lambda>f. f ''name'') example_filters = [Some ''by-genre'']
   \<and> get_campaign_arn_by_name [''campaigns'' \<mapsto> example_campaigns]
        ''personalize-movielens-sims'' = Inr ''arn:campaign/sims''
   \<and> is_ValueError (get_filter_arn_by_name [''Filters'' \<mapsto> example_filters]
        ''personalize-movielens-sims'')"
proof -
  have h1: "[''campaigns'' \<mapsto> example_campaigns] ''campaigns'' = Some example_campaigns"
    by simp
  have h2: "\<forall>c \<in> set example_campaigns. c ''name'' \<noteq> None"
    by (simp add: example_campaigns_def named_summary_def)
  have h3: "[''Filters'' \<mapsto> example_filters] ''Filters'' = Some example_filters"
    by simp
  have h4: "\<forall>f \<in> set example_filters. f ''name'' \<noteq> None"
    by (simp add: example_filters_def named_summary_def)
  note main = arn_by_name_first_match
    [where list_campaigns = "[''campaigns'' \<mapsto> example_campaigns]" and cs = example_campaigns
       and list_filters = "[''Filters'' \<mapsto> example_filters]" and fs = example_filters
       and wanted = "''personalize-movielens-sims''", OF h1 h2 h3 h4]
  have first: "Suc 0 < length example_campaigns
      \<and> (example_campaigns ! Suc 0) ''name'' = Some ''personalize-movielens-sims''
      \<and> (\<forall>j < Suc 0. (example_campaigns ! j) ''name'' \<noteq> Some ''personalize-movielens-sims'')
      \<and> (example_campaigns ! Suc 0) ''campaignArn'' = Some ''arn:campaign/sims''"
    by (simp add: example_campaigns_def named_summary_def)
  have absent: "\<forall>f \<in> set example_filters. f ''name'' \<noteq> Some ''personalize-movielens-sims''"
    by (simp add: example_filters_def named_summary_def)
  from main first have "get_campaign_arn_by_name [''campaigns'' \<mapsto> example_campaigns]
        ''personalize-movielens-sims'' = Inr ''arn:campaign/sims''"
    by blast
  moreover from main absent
  have "is_ValueError (get_filter_arn_by_name [''Filters'' \<mapsto> example_filters]
        ''personalize-movielens-sims'')"
    by blast
  ultimately show ?thesis
    by (simp add: example_campaigns_def example_filters_def named_summary_def)
qed

section \<open>Facts about session ids\<close>

lemma log_new_review_session:
  assumes "ran (session_dict st) \<subseteq> {str_uuid1 env}"
  shows "ran (session_dict (snd (log_new_review env c st))) \<subseteq> {str_uuid1 env}
       \<and> dom (session_dict (snd (log_new_review env c st)))
           = insert (user_id c) (dom (session_dict st))
       \<and> map sessionId (sent (snd (log_new_review env c st)))
           = map sessionId (sent st) @ [str_uuid1 env]"
proof (cases "session_dict st (user_id c)")
  case None
  then show ?thesis using assms
    by (auto simp: log_new_review_def defaultdict_getitem_def generate_random_session_id_def
          Let_def ran_def)
next
  case (Some v)
  then have "v = str_uuid1 env" using assms by (auto simp: ran_def)
  with Some show ?thesis using assms
    by (auto simp: log_new_review_def defaultdict_getitem_def Let_def)
qed

lemma log_reviews_session:
  assumes "ran (session_dict st) \<subseteq> {str_uuid1 env}"
  shows "ran (session_dict (log_reviews env cs st)) \<subseteq> {str_uuid1 env}
       \<and> dom (session_dict (log_reviews env cs st)) = user_id ` set cs \<union> dom (session_dict st)
       \<and> map sessionId (sent (log_reviews env cs st))
           = map sessionId (sent st) @ replicate (length cs) (str_uuid1 env)"
  using assms
proof (induction cs arbitrary: st)
  case Nil
  then show ?case by simp
next
  case (Cons c cs)
  note step = log_new_review_session [OF Cons.prems, of c]
  from step have inv: "ran (session_dict (snd (log_new_review env c st))) \<subseteq> {str_uuid1 env}"
    by blast
  show ?case
    using Cons.IH [OF inv] step by (auto simp: replicate_app_Cons_same)
qed

text \<open>
  C9, as stated, fails across runs: in two interpreter processes in which the function
  object \<^verbatim>\<open>uuid.uuid1\<close> has different addresses, the same call sends different
  \<open>sessionId\<close> values.
\<close>

theorem session_id_differs_between_runs_counterexample:
  "map sessionId (sent (log_reviews first_run [one_review] fresh_reviews))
     = [''<function uuid1 at 0x7f3a5c0d1e50>'']
   \<and> map sessionId (sent (log_reviews second_run [one_review] fresh_reviews))
     = [''<function uuid1 at 0x7f81e42b7e50>'']
   \<and> map sessionId (sent (log_reviews first_run [one_review] fresh_reviews))
     \<noteq> map sessionId (sent (log_reviews second_run [one_review] fresh_reviews))"
  by (simp add: log_new_review_def defaultdict_getitem_def generate_random_session_id_def
        fresh_reviews_def first_run_def second_run_def one_review_def Let_def)


text \<open>
  C9, amended: within one interpreter process, \<open>generate_random_session_id\<close> returns
  the text of \<^verbatim>\<open>uuid.uuid1\<close> whenever it is called. So, from a newly created
  \<^verbatim>\<open>session_dict\<close> and after any calls of \<^verbatim>\<open>log_new_review\<close> (any users, items,
  ratings and times, whatever the events service answers), \<^verbatim>\<open>session_dict\<close> maps each
  user seen to that one text, and every \<^verbatim>\<open>put_events\<close> request sent carries it as its
  \<open>sessionId\<close>.
\<close>

theorem session_id_is_constant:
  "generate_random_session_id (str_uuid1 env) u = str_uuid1 env
   \<and> session_dict (log_reviews env cs fresh_reviews)
       = (\<lambda>user. if user \<in> user_id ` set cs then Some (str_uuid1 env) else None)
   \<and> map sessionId (sent (log_reviews env cs fresh_reviews))
       = replicate (length cs) (str_uuid1 env)"
proof -
  have init: "ran (session_dict (fresh_reviews :: ('a, 'c, 'd) review_state)) \<subseteq> {str_uuid1 env}"
    by (simp add: fresh_reviews_def)
  note run = log_reviews_session [OF init, of cs]
  have "session_dict (log_reviews env cs fresh_reviews) user
      = (if user \<in> user_id ` set cs then Some (str_uuid1 env) else None)" for user
  proof (cases "session_dict (log_reviews env cs fresh_reviews) user")
    case None
    then have "user \<notin> dom (session_dict (log_reviews env cs fresh_reviews))" by auto
    with run None show ?thesis by (auto simp: fresh_reviews_def)
  next
    case (Some v)
    then have "v \<in> ran (session_dict (log_reviews env cs fresh_reviews))"
      and "user \<in> dom (session_dict (log_reviews env cs fresh_reviews))"
      by (auto simp: ran_def)
    with run Some show ?thesis by (auto simp: fresh_reviews_def)
  qed
  then show ?thesis
    using run by (auto simp: generate_random_session_id_def fresh_reviews_def)
qed

section \<open>Facts about the campaign wait loop\<close>

lemma removed_when_terminal_step:
  assumes "removed_when_terminal st" and "arn \<in> set (in_progress_campaigns st)"
  shows "\<not> terminal r \<Longrightarrow> removed_when_terminal (st\<lparr>described := described st @ [(arn, r)]\<rparr>)"
    and "terminal r \<Longrightarrow> removed_when_terminal
           (st\<lparr>described := described st @ [(arn, r)], stdout := out,
               in_progress_campaigns := remove1 arn (in_progress_campaigns st)\<rparr>)"
proof -
  have new: "\<not> polled_after_terminal (described st @ [(arn, r)])"
    using assms
    by (auto simp: removed_when_terminal_def polled_after_terminal_def nth_append less_Suc_eq)
  { assume "\<not> terminal r"
    then show "removed_when_terminal (st\<lparr>described := described st @ [(arn, r)]\<rparr>)"
      using assms new by (auto simp: removed_when_terminal_def nth_append less_Suc_eq) }
  { assume "terminal r"
    then show "removed_when_terminal
           (st\<lparr>described := described st @ [(arn, r)], stdout := out,
               in_progress_campaigns := remove1 arn (in_progress_campaigns st)\<rparr>)"
      using assms new by (auto simp: removed_when_terminal_def nth_append less_Suc_eq) }
qed

lemma for_campaigns_removed:
  "removed_when_terminal st \<Longrightarrow> removed_when_terminal (snd (for_campaigns describe i st))"
  by (rule for_campaigns_induct_inv [where P = removed_when_terminal])
     (simp_all add: removed_when_terminal_step)

lemma removed_when_terminal_sleep:
  "removed_when_terminal (st\<lparr>stdout := out, now := t\<rparr>) = removed_when_terminal st"
  by (simp add: removed_when_terminal_def)

lemma wait_loop_induct_inv:
  assumes "P st"
      and "\<And>st. P st \<Longrightarrow> P (snd (for_campaigns describe 0 st))"
      and "\<And>st out. P st \<Longrightarrow> P (st\<lparr>stdout := out, now := now st + 60\<rparr>)"
  shows "P (snd (wait_loop describe max_time st))"
  using assms
proof (induction describe max_time st rule: wait_loop.induct)
  case (1 describe max_time st)
  obtain r st1 where f: "for_campaigns describe 0 st = (r, st1)"
    by (cases "for_campaigns describe 0 st")
  have st1: "P st1"
    using "1.prems"(2) [OF "1.prems"(1)] f by simp
  show ?case
  proof (cases "now st < max_time \<and> r = Inr () \<and> in_progress_campaigns st1 \<noteq> []")
    case True
    have "P (snd (wait_loop describe max_time
        (st1\<lparr>stdout := stdout st1 @ [''At least one campaign build is still in progress''],
             now := now st1 + 60\<rparr>)))"
      using True f "1.prems"(2,3) by (intro "1.IH" [of r st1 "()"] "1.prems"(3) st1) simp_all
    then show ?thesis using True f by (subst wait_loop.simps) simp
  next
    case False
    then show ?thesis using f st1 "1.prems"(1)
      by (subst wait_loop.simps) (auto split: sum.split)
  qed
qed

lemma wait_loop_removed:
  "removed_when_terminal st \<Longrightarrow> removed_when_terminal (snd (wait_loop describe max_time st))"
  by (rule wait_loop_induct_inv [where P = removed_when_terminal])
     (simp_all add: for_campaigns_removed removed_when_terminal_sleep)

lemma wait_loop_exit:
  "fst (wait_loop describe max_time st) = Inr () \<Longrightarrow>
   in_progress_campaigns (snd (wait_loop describe max_time st)) = []
   \<or> max_time \<le> now (snd (wait_loop describe max_time st))"
proof (induction describe max_time st rule: wait_loop.induct)
  case (1 describe max_time st)
  obtain r st1 where f: "for_campaigns describe 0 st = (r, st1)"
    by (cases "for_campaigns describe 0 st")
  show ?case
  proof (cases "now st < max_time \<and> r = Inr () \<and> in_progress_campaigns st1 \<noteq> []")
    case True
    let ?st2 = "st1\<lparr>stdout := stdout st1 @ [''At least one campaign build is still in progress''],
             now := now st1 + 60\<rparr>"
    have eq: "wait_loop describe max_time st = wait_loop describe max_time ?st2"
      using True f by (subst wait_loop.simps) simp
    show ?thesis
      unfolding eq using True f "1.prems"
      by (intro "1.IH" [of r st1 "()"]) (simp_all add: eq)
  next
    case False
    then show ?thesis using f "1.prems"
      by (subst (1 2) wait_loop.simps) (auto split: sum.splits if_splits simp: wait_loop.simps [of describe max_time st])
  qed
qed

lemma wait_loop_deadline:
  "now st < max_time + 60 \<Longrightarrow> now (snd (wait_loop describe max_time st)) < max_time + 60"
proof (induction describe max_time st rule: wait_loop.induct)
  case (1 describe max_time st)
  obtain r st1 where f: "for_campaigns describe 0 st = (r, st1)"
    by (cases "for_campaigns describe 0 st")
  have n: "now st1 = now st" using for_campaigns_now [of describe 0 st] f by simp
  show ?case
  proof (cases "now st < max_time \<and> r = Inr () \<and> in_progress_campaigns st1 \<noteq> []")
    case True
    let ?st2 = "st1\<lparr>stdout := stdout st1 @ [''At least one campaign build is still in progress''],
             now := now st1 + 60\<rparr>"
    have eq: "wait_loop describe max_time st = wait_loop describe max_time ?st2"
      using True f by (subst wait_loop.simps) simp
    show ?thesis
      unfolding eq using True f n
      by (intro "1.IH" [of r st1 "()"]) simp_all
  next
    case False
    then show ?thesis using f n "1.prems"
      by (subst wait_loop.simps) (auto split: sum.splits)
  qed
qed

text \<open>
  C8: when the three campaign ARNs are distinct, the wait loop (which always ends) never
  calls \<^verbatim>\<open>describe_campaign\<close> again for a campaign after a call that read \<open>ACTIVE\<close> or
  \<open>CREATE FAILED\<close> for it, and such a campaign is no longer in
  \<^verbatim>\<open>in_progress_campaigns\<close>; when the loop ends without an exception, the list is empty
  or the clock has reached the deadline of three hours, which it overruns by less than one
  sleep of 60 seconds. Entered with an empty list, the loop ends at once, without a
  describe call or a sleep.
\<close>

theorem campaign_wait_stops_polling:
  assumes "distinct arns"
  shows "\<not> polled_after_terminal (described (snd (campaign_wait describe t0 arns)))
       \<and> (\<forall>i < length (described (snd (campaign_wait describe t0 arns))).
             terminal (snd (described (snd (campaign_wait describe t0 arns)) ! i)) \<longrightarrow>
             fst (described (snd (campaign_wait describe t0 arns)) ! i)
               \<notin> set (in_progress_campaigns (snd (campaign_wait describe t0 arns))))
       \<and> (fst (campaign_wait describe t0 arns) = Inr () \<longrightarrow>
             in_progress_campaigns (snd (campaign_wait describe t0 arns)) = []
             \<or> t0 + 3 * 60 * 60 \<le> now (snd (campaign_wait describe t0 arns)))
       \<and> now (snd (campaign_wait describe t0 arns)) < t0 + 3 * 60 * 60 + 60
       \<and> (in_progress_campaigns st = [] \<longrightarrow> wait_loop describe max_time st = (Inr (), st))"
proof -
  let ?st0 = "\<lparr>in_progress_campaigns = arns, now = t0, described = [], stdout = []\<rparr>"
  have "removed_when_terminal ?st0"
    using assms by (simp add: removed_when_terminal_def polled_after_terminal_def)
  then have "removed_when_terminal (snd (campaign_wait describe t0 arns))"
    unfolding campaign_wait_def by (rule wait_loop_removed)
  moreover have "fst (campaign_wait describe t0 arns) = Inr () \<longrightarrow>
             in_progress_campaigns (snd (campaign_wait describe t0 arns)) = []
             \<or> t0 + 3 * 60 * 60 \<le> now (snd (campaign_wait describe t0 arns))"
    unfolding campaign_wait_def using wait_loop_exit by blast
  moreover have "now (snd (campaign_wait describe t0 arns)) < t0 + 3 * 60 * 60 + 60"
    unfolding campaign_wait_def by (rule wait_loop_deadline) simp
  moreover have "in_progress_campaigns st = [] \<longrightarrow> wait_loop describe max_time st = (Inr (), st)"
    by (subst wait_loop.simps, subst for_campaigns.simps) simp
  ultimately show ?thesis
    by (simp add: removed_when_terminal_def)
qed

theorem campaign_wait_stops_polling_witness:
  "distinct [''up'', ''sims'', ''rerank'']
   \<and> campaign_wait ex_remote 0 [''up'', ''sims'', ''rerank'']
       = (Inr (),
          \<lparr>in_progress_campaigns = [], now = 120,
             described =
               [(''up'', Inr ''ACTIVE''), (''rerank'', Inr ''CREATE PENDING''),
                (''sims'', Inr ''CREATE FAILED''), (''rerank'', Inr ''ACTIVE'')],
             stdout =
               [''Build succeeded for up'',
                ''At least one campaign build is still in progress'',
                ''Build failed for sims'',
                ''At least one campaign build is still in progress'',
                ''Build succeeded for rerank'']\<rparr>)
   \<and> \<not> polled_after_terminal
         (described (snd (campaign_wait ex_remote 0 [''up'', ''sims'', ''rerank''])))
   \<and> now (snd (campaign_wait ex_remote 0 [''up'', ''sims'', ''rerank''])) < 0 + 3 * 60 * 60 + 60
   \<and> in_progress_campaigns
         \<lparr>in_progress_campaigns = [], now = 0, described = [], stdout = []\<rparr> = []
   \<and> wait_loop ex_remote 10800
         \<lparr>in_progress_campaigns = [], now = 0, described = [], stdout = []\<rparr>
       = (Inr (), \<lparr>in_progress_campaigns = [], now = 0, described = [], stdout = []\<rparr>)"
proof -
  have d: "distinct [''up'', ''sims'', ''rerank'']" by simp
  have run: "campaign_wait ex_remote 0 [''up'', ''sims'', ''rerank'']
       = (Inr (),
          \<lparr>in_progress_campaigns = [], now = 120,
             described =
               [(''up'', Inr ''ACTIVE''), (''rerank'', Inr ''CREATE PENDING''),
                (''sims'', Inr ''CREATE FAILED''), (''rerank'', Inr ''ACTIVE'')],
             stdout =
               [''Build succeeded for up'',
                ''At least one campaign build is still in progress'',
                ''Build failed for sims'',
                ''At least one campaign build is still in progress'',
                ''Build succeeded for rerank'']\<rparr>)"
    by (simp add: campaign_wait_def wait_loop.simps for_campaigns.simps ex_remote_def
          list_remove_def Let_def)
  have e: "in_progress_campaigns
         \<lparr>in_progress_campaigns = [], now = 0, described = [], stdout = []\<rparr> = []"
    by simp
  from campaign_wait_stops_polling [OF d, of ex_remote 0
      "\<lparr>in_progress_campaigns = [], now = 0, described = [], stdout = []\<rparr>" 10800] d run e
  show ?thesis
    by blast
qed

section \<open>Facts about the polling spinner\<close>

lemma fetch_times_append: "fetch_times (xs @ ys) = fetch_times xs @ fetch_times ys"
  by (induction xs rule: fetch_times.induct) simp_all

lemma spin_not_yet:
  assumes "iteration poll fin (world st) = (Inr (s, NotYetFinished), w2)"
  shows "spinner_loop poll fin str ps ts st =
     (let st3 = st\<lparr>world := w2, elapsed := elapsed st + ps, fetches := fetches st + 1,
                    progress := progress st @ [str s w2],
                    trace := trace st @ [Fetch (elapsed st) (Inr s), Classify s NotYetFinished,
                                         Display s (str s w2), Sleep ps]\<rparr>
      in if ts < elapsed st + ps then Some (Inl (PollingTimedOut s), st3)
         else spinner_loop poll fin str ps ts st3)"
  using assms
  by (cases st, subst spinner_loop.simps) (auto simp: iteration_def Let_def split: prod.splits sum.splits)

lemma spin_terminal:
  assumes "iteration poll fin (world st) = (Inr (s, v), w2)" and "v \<noteq> NotYetFinished"
  shows "spinner_loop poll fin str ps ts st =
     Some (if v = FinishedSuccessfully then Inr () else Inl (JobFailed s),
           st\<lparr>world := w2, fetches := fetches st + 1,
              trace := trace st @ [Fetch (elapsed st) (Inr s), Classify s v]\<rparr>)"
  using assms
  by (cases st, subst spinner_loop.simps)
     (auto simp: iteration_def Let_def split: prod.splits sum.splits verdict.splits)

lemma spin_propagates:
  assumes "iteration poll fin (world st) = (Inl e, w1)"
  shows "spinner_loop poll fin str ps ts st =
     Some (Inl (Propagated e),
           st\<lparr>world := w1, fetches := fetches st + 1,
              trace := trace st @ [Fetch (elapsed st) (Inl e)]\<rparr>)"
  using assms
  by (cases st, subst spinner_loop.simps) (auto simp: iteration_def Let_def split: prod.splits sum.splits)

lemma spin_prefix:
  assumes "\<forall>k < n. \<exists>s. observed poll fin (world st) k = Inr (s, NotYetFinished)"
      and "elapsed st + n * ps \<le> ts"
  shows "\<exists>st'. spinner_loop poll fin str ps ts st = spinner_loop poll fin str ps ts st'
           \<and> world st' = world_before poll fin (world st) n
           \<and> elapsed st' = elapsed st + n * ps
           \<and> fetches st' = fetches st + n
           \<and> length (progress st') = length (progress st) + n
           \<and> fetch_times (trace st')
               = fetch_times (trace st) @ map (\<lambda>k. elapsed st + k * ps) [0..<n]"
  using assms
proof (induction n)
  case 0
  show ?case by (rule exI [of _ st]) simp
next
  case (Suc n)
  from Suc.prems have "\<forall>k < n. \<exists>s. observed poll fin (world st) k = Inr (s, NotYetFinished)"
    and "elapsed st + n * ps \<le> ts" by auto
  from Suc.IH [OF this] obtain st' where
    eq: "spinner_loop poll fin str ps ts st = spinner_loop poll fin str ps ts st'"
    and w: "world st' = world_before poll fin (world st) n"
    and e: "elapsed st' = elapsed st + n * ps"
    and f: "fetches st' = fetches st + n"
    and p: "length (progress st') = length (progress st) + n"
    and t: "fetch_times (trace st')
               = fetch_times (trace st) @ map (\<lambda>k. elapsed st + k * ps) [0..<n]"
    by blast
  from Suc.prems(1) obtain s where "observed poll fin (world st) n = Inr (s, NotYetFinished)"
    by blast
  then obtain w2 where it: "iteration poll fin (world st') = (Inr (s, NotYetFinished), w2)"
    unfolding observed_def w by (cases "iteration poll fin (world_before poll fin (world st) n)") simp
  let ?st3 = "st'\<lparr>world := w2, elapsed := elapsed st' + ps, fetches := fetches st' + 1,
                    progress := progress st' @ [str s w2],
                    trace := trace st' @ [Fetch (elapsed st') (Inr s), Classify s NotYetFinished,
                                         Display s (str s w2), Sleep ps]\<rparr>"
  have "\<not> ts < elapsed st' + ps" using Suc.prems(2) e by simp
  then have "spinner_loop poll fin str ps ts st' = spinner_loop poll fin str ps ts ?st3"
    using spin_not_yet [OF it, of str ps ts] by (simp add: Let_def)
  moreover have "world ?st3 = world_before poll fin (world st) (Suc n)"
    using it w by simp
  ultimately show ?case
    using eq e f p t by (intro exI [of _ ?st3]) (simp add: fetch_times_append)
qed

lemma spin_reaches:
  assumes "\<forall>k < n. \<exists>s. observed poll fin w k = Inr (s, NotYetFinished)"
      and "n * ps \<le> ts"
  shows "\<exists>st'. polling_spinner poll fin str ps ts w = spinner_loop poll fin str ps ts st'
           \<and> world st' = world_before poll fin w n
           \<and> elapsed st' = n * ps
           \<and> fetches st' = n
           \<and> length (progress st') = n
           \<and> fetch_times (trace st') = map (\<lambda>k. k * ps) [0..<n]"
  using spin_prefix [of n poll fin "\<lparr>world = w, elapsed = 0, fetches = 0, progress = [], trace = []\<rparr>"
      ps ts str] assms
  by (simp add: polling_spinner_def)

lemma world_before_calls:
  "world_before (\<lambda>calls. (describe calls, Suc calls)) (\<lambda>d calls. (f d, calls)) w k = w + k"
  by (induction k) (auto simp: iteration_def split: sum.splits prod.splits)

lemma observed_calls:
  "observed (\<lambda>calls. (describe calls, Suc calls)) (\<lambda>d calls. (f d, calls)) w k
     = (case describe (w + k) of Inl e \<Rightarrow> Inl e | Inr d \<Rightarrow> Inr (d, f d))"
  by (simp add: observed_def world_before_calls iteration_def split: sum.splits)

text \<open>
  C1: when the first \<open>n\<close> invocations give snapshots the predicate classifies as not yet
  finished, invocation \<open>n + 1\<close> gives one it classifies as finished successfully, and the
  \<open>n\<close> suspensions before it do not exceed the timeout (so that the run gets that far),
  \<^verbatim>\<open>polling_spinner\<close> returns normally after exactly \<open>n + 1\<close> invocations of the
  status-producing operation: the first at time 0, each later one a poll interval after
  the one before, one per iteration.
\<close>

theorem spinner_returns_after_success:
  assumes "\<forall>k < n. \<exists>s. observed poll fin w k = Inr (s, NotYetFinished)"
      and "observed poll fin w n = Inr (s, FinishedSuccessfully)"
      and "n * ps \<le> ts"
  shows "\<exists>st. polling_spinner poll fin str ps ts w = Some (Inr (), st)
          \<and> fetches st = Suc n
          \<and> fetch_times (trace st) = map (\<lambda>k. k * ps) [0..<Suc n]
          \<and> length (progress st) = n"
proof -
  from spin_reaches [OF assms(1,3), of str] obtain st' where
    eq: "polling_spinner poll fin str ps ts w = spinner_loop poll fin str ps ts st'"
    and w: "world st' = world_before poll fin w n"
    and st': "elapsed st' = n * ps" "fetches st' = n" "length (progress st') = n"
      "fetch_times (trace st') = map (\<lambda>k. k * ps) [0..<n]"
    by blast
  from assms(2) obtain w2 where "iteration poll fin (world st') = (Inr (s, FinishedSuccessfully), w2)"
    unfolding observed_def w by (cases "iteration poll fin (world_before poll fin w n)") simp
  from spin_terminal [OF this, of str ps ts] eq st' show ?thesis
    by (simp add: fetch_times_append)
qed

theorem spinner_returns_after_success_witness:
  "map (observed (\<lambda>calls. (group_ready_third calls, Suc calls))
          (\<lambda>d calls. (py_verdict (is_dsg_ready d), calls)) 0) [0, 1, 2]
     = [Inr (status_desc ''datasetGroup'' ''CREATE PENDING'', NotYetFinished),
        Inr (status_desc ''datasetGroup'' ''CREATE PENDING'', NotYetFinished),
        Inr (status_desc ''datasetGroup'' ''ACTIVE'', FinishedSuccessfully)]
   \<and> 2 * 20 \<le> 20 * (60 :: nat)
   \<and> (\<exists>st. wait_for_dataset_group group_ready_third = Some (Inr (), st)
          \<and> fetches st = 3 \<and> fetch_times (trace st) = [0, 20, 40] \<and> length (progress st) = 2)"
proof -
  let ?poll = "\<lambda>calls. (group_ready_third calls, Suc calls)"
  let ?fin = "\<lambda>d (calls :: nat). (py_verdict (is_dsg_ready d), calls)"
  have obs: "map (observed ?poll ?fin 0) [0, 1, 2]
     = [Inr (status_desc ''datasetGroup'' ''CREATE PENDING'', NotYetFinished),
        Inr (status_desc ''datasetGroup'' ''CREATE PENDING'', NotYetFinished),
        Inr (status_desc ''datasetGroup'' ''ACTIVE'', FinishedSuccessfully)]"
    by (simp add: observed_calls group_ready_third_def is_dsg_ready_def py_verdict_def)
  then have h1: "\<forall>k < 2. \<exists>s. observed ?poll ?fin 0 k = Inr (s, NotYetFinished)"
    by (auto simp: less_Suc_eq numeral_2_eq_2)
  from obs have h2: "observed ?poll ?fin 0 2
      = Inr (status_desc ''datasetGroup'' ''ACTIVE'', FinishedSuccessfully)"
    by simp
  have h3: "2 * 20 \<le> 20 * (60 :: nat)" by simp
  from spinner_returns_after_success [OF h1 h2 h3,
      of "\<lambda>d calls. text_or_empty (getitem2 d ''datasetGroup'' ''status'')"]
  have "\<exists>st. wait_for_dataset_group group_ready_third = Some (Inr (), st)
          \<and> fetches st = 3 \<and> fetch_times (trace st) = [0, 20, 40] \<and> length (progress st) = 2"
    by (simp add: wait_for_dataset_group_def upt_rec numeral_3_eq_3 numeral_2_eq_2)
  with obs h3 show ?thesis by blast
qed

text \<open>
  C2: when the first \<open>n\<close> invocations give snapshots classified as not yet finished, the
  predicate reports a fatal failure on invocation \<open>n + 1\<close>, and the run gets that far
  within the timeout, \<^verbatim>\<open>polling_spinner\<close> fails with \<open>JobFailed\<close> carrying the snapshot of
  invocation \<open>n + 1\<close>, after exactly \<open>n + 1\<close> invocations.
\<close>

theorem spinner_fails_on_fatal:
  assumes "\<forall>k < n. \<exists>s. observed poll fin w k = Inr (s, NotYetFinished)"
      and "observed poll fin w n = Inr (s, FinishedFatalFailure)"
      and "n * ps \<le> ts"
  shows "\<exists>st. polling_spinner poll fin str ps ts w = Some (Inl (JobFailed s), st)
          \<and> fetches st = Suc n
          \<and> fetch_times (trace st) = map (\<lambda>k. k * ps) [0..<Suc n]"
proof -
  from spin_reaches [OF assms(1,3), of str] obtain st' where
    eq: "polling_spinner poll fin str ps ts w = spinner_loop poll fin str ps ts st'"
    and w: "world st' = world_before poll fin w n"
    and st': "elapsed st' = n * ps" "fetches st' = n"
      "fetch_times (trace st') = map (\<lambda>k. k * ps) [0..<n]"
    by blast
  from assms(2) obtain w2 where "iteration poll fin (world st') = (Inr (s, FinishedFatalFailure), w2)"
    unfolding observed_def w by (cases "iteration poll fin (world_before poll fin w n)") simp
  from spin_terminal [OF this, of str ps ts] eq st' show ?thesis
    by (simp add: fetch_times_append)
qed

theorem spinner_fails_on_fatal_witness:
  "map (observed (\<lambda>calls. (batch_job_fails_second calls, Suc calls))
          (\<lambda>d calls. (py_verdict (is_batch_job_finished d), calls)) 0) [0, 1]
     = [Inr (status_desc ''batchInferenceJob'' ''CREATE IN_PROGRESS'', NotYetFinished),
        Inr (status_desc ''batchInferenceJob'' ''CREATE FAILED'', FinishedFatalFailure)]
   \<and> 1 * 30 \<le> 60 * (60 :: nat)
   \<and> (\<exists>st. wait_for_batch_job batch_job_fails_second
            = Some (Inl (JobFailed (status_desc ''batchInferenceJob'' ''CREATE FAILED'')), st)
          \<and> fetches st = 2 \<and> fetch_times (trace st) = [0, 30])"
proof -
  let ?poll = "\<lambda>calls. (batch_job_fails_second calls, Suc calls)"
  let ?fin = "\<lambda>d (calls :: nat). (py_verdict (is_batch_job_finished d), calls)"
  have obs: "map (observed ?poll ?fin 0) [0, 1]
     = [Inr (status_desc ''batchInferenceJob'' ''CREATE IN_PROGRESS'', NotYetFinished),
        Inr (status_desc ''batchInferenceJob'' ''CREATE FAILED'', FinishedFatalFailure)]"
    by (simp add: observed_calls batch_job_fails_second_def is_batch_job_finished_def
          py_verdict_def)
  then have h1: "\<forall>k < 1. \<exists>s. observed ?poll ?fin 0 k = Inr (s, NotYetFinished)"
    by auto
  from obs have h2: "observed ?poll ?fin 0 1
      = Inr (status_desc ''batchInferenceJob'' ''CREATE FAILED'', FinishedFatalFailure)"
    by simp
  have h3: "1 * 30 \<le> 60 * (60 :: nat)" by simp
  from spinner_fails_on_fatal [OF h1 h2 h3,
      of "\<lambda>d calls. text_or_empty (getitem2 d ''batchInferenceJob'' ''status'')"]
  have "\<exists>st. wait_for_batch_job batch_job_fails_second
            = Some (Inl (JobFailed (status_desc ''batchInferenceJob'' ''CREATE FAILED'')), st)
          \<and> fetches st = 2 \<and> fetch_times (trace st) = [0, 30]"
    by (simp add: wait_for_batch_job_def upt_rec numeral_2_eq_2)
  with obs h3 show ?thesis by blast
qed









lemma untimed_to_timed:
  assumes "spinner_loop poll fin str ps ts st = Some y"
  shows "timed_spinner_loop (\<lambda>w. 0) poll fin str ps ts st = Some y"
proof (rule spinner_loop.raw_induct
    [where P = "\<lambda>poll fin str ps ts st y.
        timed_spinner_loop (\<lambda>w. 0) poll fin str ps ts st = Some y", OF _ assms], goal_cases)
  case (1 spin' poll fin str ps ts st y)
  note IH = "1"(1) and body = "1"(2)
  show ?case
    using body
    by (cases st, subst timed_spinner_loop.simps)
       (auto simp: Let_def split: prod.splits sum.splits verdict.splits if_splits dest: IH)
qed

lemma timed_to_untimed:
  assumes "timed_spinner_loop lat poll fin str ps ts st = Some y"
  shows "lat = (\<lambda>w. 0) \<longrightarrow> spinner_loop poll fin str ps ts st = Some y"
proof (rule timed_spinner_loop.raw_induct
    [where P = "\<lambda>lat poll fin str ps ts st y.
        lat = (\<lambda>w. 0) \<longrightarrow> spinner_loop poll fin str ps ts st = Some y", OF _ assms],
    goal_cases)
  case (1 timed' lat poll fin str ps ts st y)
  note IH = "1"(1) [rule_format] and body = "1"(2)
  show ?case
  proof
    assume z: "lat = (\<lambda>w. 0)"
    show "spinner_loop poll fin str ps ts st = Some y"
      using body z
      by (cases st, subst spinner_loop.simps)
         (auto simp: Let_def split: prod.splits sum.splits verdict.splits if_splits dest: IH)
  qed
qed

lemma timed_zero_latency:
  "timed_spinner_loop (\<lambda>w. 0) poll fin str ps ts st = spinner_loop poll fin str ps ts st"
proof (cases "spinner_loop poll fin str ps ts st")
  case (Some y)
  then show ?thesis by (simp add: untimed_to_timed)
next
  case None
  show ?thesis
  proof (cases "timed_spinner_loop (\<lambda>w. 0) poll fin str ps ts st")
    case (Some y)
    from timed_to_untimed [OF this] None show ?thesis by simp
  qed (simp add: None)
qed

text \<open>
  C7: when the first \<open>n\<close> invocations give snapshots classified as not yet finished and
  invocation \<open>n + 1\<close> of the status-producing operation raises \<open>e\<close> (the run getting that
  far within the timeout), \<^verbatim>\<open>polling_spinner\<close> ends with that error \<open>e\<close>, neither
  \<open>JobFailed\<close> nor \<open>PollingTimedOut\<close>, after exactly \<open>n + 1\<close> invocations.
\<close>

theorem spinner_propagates_producer_error:
  assumes "\<forall>k < n. \<exists>s. observed poll fin w k = Inr (s, NotYetFinished)"
      and "observed poll fin w n = Inl e"
      and "n * ps \<le> ts"
  shows "\<exists>st. polling_spinner poll fin str ps ts w = Some (Inl (Propagated e), st)
          \<and> fetches st = Suc n
          \<and> fetch_times (trace st) = map (\<lambda>k. k * ps) [0..<Suc n]"
proof -
  from spin_reaches [OF assms(1,3), of str] obtain st' where
    eq: "polling_spinner poll fin str ps ts w = spinner_loop poll fin str ps ts st'"
    and w: "world st' = world_before poll fin w n"
    and st': "elapsed st' = n * ps" "fetches st' = n"
      "fetch_times (trace st') = map (\<lambda>k. k * ps) [0..<n]"
    by blast
  from assms(2) obtain w1 where "iteration poll fin (world st') = (Inl e, w1)"
    unfolding observed_def w by (cases "iteration poll fin (world_before poll fin w n)") simp
  from spin_propagates [OF this, of str ps ts] eq st' show ?thesis
    by (simp add: fetch_times_append)
qed

theorem spinner_propagates_producer_error_witness:
  "map (observed (\<lambda>calls. (dataset_throttled_second calls, Suc calls))
          (\<lambda>d calls. (py_verdict (is_ds_ready d), calls)) 0) [0, 1]
     = [Inr (status_desc ''dataset'' ''CREATE PENDING'', NotYetFinished),
        Inl (ClientError ''ThrottlingException'')]
   \<and> 1 * 20 \<le> 20 * (60 :: nat)
   \<and> (\<exists>st. wait_for_dataset dataset_throttled_second
            = Some (Inl (Propagated (ClientError ''ThrottlingException'')), st)
          \<and> fetches st = 2 \<and> fetch_times (trace st) = [0, 20])"
proof -
  let ?poll = "\<lambda>calls. (dataset_throttled_second calls, Suc calls)"
  let ?fin = "\<lambda>d (calls :: nat). (py_verdict (is_ds_ready d), calls)"
  have obs: "map (observed ?poll ?fin 0) [0, 1]
     = [Inr (status_desc ''dataset'' ''CREATE PENDING'', NotYetFinished),
        Inl (ClientError ''ThrottlingException'')]"
    by (simp add: observed_calls dataset_throttled_second_def is_ds_ready_def py_verdict_def)
  then have h1: "\<forall>k < 1. \<exists>s. observed ?poll ?fin 0 k = Inr (s, NotYetFinished)"
    by auto
  from obs have h2: "observed ?poll ?fin 0 1 = Inl (ClientError ''ThrottlingException'')"
    by simp
  have h3: "1 * 20 \<le> 20 * (60 :: nat)" by simp
  from spinner_propagates_producer_error [OF h1 h2 h3,
      of "\<lambda>d calls. text_or_empty (getitem2 d ''dataset'' ''status'')"]
  have "\<exists>st. wait_for_dataset dataset_throttled_second
            = Some (Inl (Propagated (ClientError ''ThrottlingException'')), st)
          \<and> fetches st = 2 \<and> fetch_times (trace st) = [0, 20]"
    by (simp add: wait_for_dataset_def upt_rec numeral_2_eq_2)
  with obs h3 show ?thesis by blast
qed

lemma spin_trace:
  assumes "spinner_loop poll fin str ps ts st = Some y"
  shows "\<exists>es. trace (snd y) = trace st @ es \<and> same_snapshot es
        \<and> fetches (snd y) = fetches st + length (fetch_times es)"
proof (rule spinner_loop.raw_induct
    [where P = "\<lambda>poll fin str ps ts st y. \<exists>es. trace (snd y) = trace st @ es \<and> same_snapshot es
        \<and> fetches (snd y) = fetches st + length (fetch_times es)", OF _ assms], goal_cases)
  case (1 spin' poll fin str ps ts st y)
  note IH = "1"(1) and body = "1"(2)
  obtain fetched w1 where p: "poll (world st) = (fetched, w1)" by (cases "poll (world st)")
  show ?case
  proof (cases fetched)
    case (Inl e)
    with p body show ?thesis by (auto simp: Let_def)
  next
    case (Inr s)
    obtain v w2 where f: "fin s w1 = (v, w2)" by (cases "fin s w1")
    show ?thesis
    proof (cases "v = NotYetFinished")
      case False
      with p Inr f body show ?thesis
        by (cases v) (auto simp: Let_def)
    next
      case True
      let ?st3 = "st\<lparr>world := w2, elapsed := elapsed st + ps, fetches := fetches st + 1,
                    progress := progress st @ [str s w2],
                    trace := trace st @ [Fetch (elapsed st) (Inr s), Classify s NotYetFinished,
                                         Display s (str s w2), Sleep ps]\<rparr>"
      show ?thesis
      proof (cases "ts < elapsed st + ps")
        case late: True
        with p Inr f True body show ?thesis by (auto simp: Let_def)
      next
        case False
        with p Inr f True body have "spin' poll fin str ps ts ?st3 = Some y"
          by (cases st) (auto simp: Let_def)
        from IH [OF this] obtain es where
          "trace (snd y) = trace ?st3 @ es" "same_snapshot es"
          "fetches (snd y) = fetches ?st3 + length (fetch_times es)"
          by blast
        then show ?thesis
          by (intro exI [of _ "[Fetch (elapsed st) (Inr s), Classify s NotYetFinished,
                                         Display s (str s w2), Sleep ps] @ es"])
             (simp add: fetch_times_append)
      qed
    qed
  qed
qed

text \<open>
  C6: in every run of \<^verbatim>\<open>polling_spinner\<close> that ends, each iteration makes one fetch, and
  the predicate and (when it is called) the formatter are applied to the snapshot that
  fetch gave; the number of fetches is the number of iterations begun.
\<close>

theorem spinner_same_snapshot:
  assumes "polling_spinner poll fin str ps ts w = Some (r, st)"
  shows "same_snapshot (trace st) \<and> fetches st = length (fetch_times (trace st))"
  using spin_trace [of poll fin str ps ts
      "\<lparr>world = w, elapsed = 0, fetches = 0, progress = [], trace = []\<rparr>" "(r, st)"] assms
  by (auto simp: polling_spinner_def)

lemma imports_run:
  "wait_for_imports all_active [''a'', ''b'']
     = Some (Inr (),
         \<lparr>world = \<lparr>waiting_arns = [], requested = [''a'', ''b''], printed = []\<rparr>,
            elapsed = 30, fetches = 2, progress = [''1 imports in progress''],
            trace = [Fetch 0 (Inr (MapOverWaiting all_active 0)),
                     Classify (MapOverWaiting all_active 0) NotYetFinished,
                     Display (MapOverWaiting all_active 0) ''1 imports in progress'',
                     Sleep 30,
                     Fetch 30 (Inr (MapOverWaiting all_active 0)),
                     Classify (MapOverWaiting all_active 0) FinishedSuccessfully]\<rparr>)"
  by (simp add: wait_for_imports_def polling_spinner_def spinner_loop.simps
        are_imports_finished_def for_descriptions.simps all_active_def job_desc_def
        getitem2_def getitem_def list_remove_def py_verdict_def str_nat.simps Let_def)


theorem spinner_same_snapshot_witness:
  "wait_for_imports all_active [''a'', ''b'']
     = Some (Inr (),
         \<lparr>world = \<lparr>waiting_arns = [], requested = [''a'', ''b''], printed = []\<rparr>,
            elapsed = 30, fetches = 2, progress = [''1 imports in progress''],
            trace = [Fetch 0 (Inr (MapOverWaiting all_active 0)),
                     Classify (MapOverWaiting all_active 0) NotYetFinished,
                     Display (MapOverWaiting all_active 0) ''1 imports in progress'',
                     Sleep 30,
                     Fetch 30 (Inr (MapOverWaiting all_active 0)),
                     Classify (MapOverWaiting all_active 0) FinishedSuccessfully]\<rparr>)
   \<and> same_snapshot
        [Fetch 0 (Inr (MapOverWaiting all_active 0) :: pyerr + descriptions),
         Classify (MapOverWaiting all_active 0) NotYetFinished,
         Display (MapOverWaiting all_active 0) ''1 imports in progress'',
         Sleep 30,
         Fetch 30 (Inr (MapOverWaiting all_active 0)),
         Classify (MapOverWaiting all_active 0) FinishedSuccessfully]"
  using spinner_same_snapshot [OF imports_run [unfolded wait_for_imports_def]] imports_run
  by simp

section \<open>Facts about the predicates for several jobs\<close>

lemma for_descriptions_inv:
  assumes start: "P it w"
      and advance: "\<And>it w r it' w'. P it w \<Longrightarrow> next_description it w = Some (r, it', w') \<Longrightarrow> P it' w'"
      and announced: "\<And>it0 w0 d it w arn. P it0 w0 \<Longrightarrow> next_description it0 w0 = Some (Inr d, it, w) \<Longrightarrow>
          getitem2 d key ''status'' = Inr ''ACTIVE'' \<Longrightarrow> getitem2 d key arn_key = Inr arn \<Longrightarrow>
          P it (w\<lparr>printed := printed w @ announce arn\<rparr>)"
      and removed: "\<And>it0 w0 d it w arn. P it0 w0 \<Longrightarrow> next_description it0 w0 = Some (Inr d, it, w) \<Longrightarrow>
          getitem2 d key ''status'' = Inr ''ACTIVE'' \<Longrightarrow> getitem2 d key arn_key = Inr arn \<Longrightarrow>
          arn \<in> set (waiting_arns w) \<Longrightarrow>
          P it (w\<lparr>printed := printed w @ announce arn,
                  waiting_arns := remove1 arn (waiting_arns w)\<rparr>)"
  shows "\<exists>it'. P it' (snd (for_descriptions key arn_key failure announce it w))"
  using start
proof (induction "remaining it w" arbitrary: it w rule: less_induct)
  case less
  show ?case
  proof (cases "next_description it w")
    case None
    then show ?thesis using less.prems by (subst for_descriptions.simps) auto
  next
    case (Some x)
    then obtain r it' w' where nx: "next_description it w = Some (r, it', w')"
      by (cases x) auto
    note P' = advance [OF less.prems nx]
    have wa: "waiting_arns w' = waiting_arns w" by (rule next_description_waiting [OF nx])
    have stop: "\<exists>it'. P it' w'" using P' by blast
    show ?thesis
    proof (cases r)
      case (Inl e)
      then show ?thesis using nx stop by (subst for_descriptions.simps) simp
    next
      case (Inr d)
      show ?thesis
      proof (cases "getitem2 d key ''status''")
        case (Inl e)
        then show ?thesis using nx Inr stop by (subst for_descriptions.simps) simp
      next
        case status: (Inr status)
        show ?thesis
        proof (cases "getitem2 d key arn_key")
          case (Inl e)
          then show ?thesis using nx Inr status stop by (subst for_descriptions.simps) simp
        next
          case arn: (Inr arn)
          show ?thesis
          proof (cases "status = ''ACTIVE''")
            case True
            show ?thesis
            proof (cases "arn \<in> set (waiting_arns w')")
              case False
              have "P it' (w'\<lparr>printed := printed w' @ announce arn\<rparr>)"
                using announced [OF less.prems] nx Inr status arn True by simp
              then show ?thesis using nx Inr status arn True False
                by (subst for_descriptions.simps) (auto simp: list_remove_def Let_def)
            next
              case mem: True
              let ?w2 = "w'\<lparr>printed := printed w' @ announce arn,
                            waiting_arns := remove1 arn (waiting_arns w')\<rparr>"
              have P2: "P it' ?w2"
                using removed [OF less.prems] nx Inr status arn True mem by simp
              have "remaining it' ?w2 < remaining it w"
                using wa by (intro next_description_shrinks [OF nx]) (simp add: length_remove1)
              from less.hyps [OF this P2] show ?thesis using nx Inr status arn True mem
                by (subst for_descriptions.simps) (simp add: list_remove_def Let_def)
            qed
          next
            case False
            show ?thesis
            proof (cases "str_in ''FAILED'' status")
              case True
              then show ?thesis using nx Inr status arn False stop
                by (subst for_descriptions.simps) simp
            next
              case nf: False
              have "remaining it' w' < remaining it w"
                using wa by (intro next_description_shrinks [OF nx]) simp
              from less.hyps [OF this P'] show ?thesis using nx Inr status arn False nf
                by (subst for_descriptions.simps) simp
            qed
          qed
        qed
      qed
    qed
  qed
qed

lemma subseq_remove1_self: "subseq (remove1 x xs) xs"
  by (induction xs) auto

lemma for_descriptions_subseq:
  "subseq (waiting_arns (snd (for_descriptions key arn_key failure announce it w))) (waiting_arns w)"
proof -
  have "\<exists>it' :: descriptions. subseq
      (waiting_arns (snd (for_descriptions key arn_key failure announce it w))) (waiting_arns w)"
  proof (rule for_descriptions_inv
      [where P = "\<lambda>it' w'. subseq (waiting_arns w') (waiting_arns w)"], goal_cases)
    case 1
    show ?case by simp
  next
    case (2 it w0 r it' w')
    then show ?case by (simp add: next_description_waiting)
  next
    case (3 it0 w0 d it w1 arn)
    then show ?case by (simp add: next_description_waiting)
  next
    case (4 it0 w0 d it w1 arn)
    have "subseq (remove1 arn (waiting_arns w1)) (waiting_arns w1)"
      by (rule subseq_remove1_self)
    with 4 show ?case
      by (auto simp: next_description_waiting intro: subseq_order.trans)
  qed
  then show ?thesis by simp
qed

lemma remaining_printed [simp]: "remaining it (w\<lparr>printed := p\<rparr>) = remaining it w"
  by (cases it) simp_all

lemma next_description_printed:
  "next_description it (w\<lparr>printed := p\<rparr>)
     = map_option (\<lambda>(r, it', w'). (r, it', w'\<lparr>printed := p\<rparr>)) (next_description it w)"
  by (cases "(it, w)" rule: next_description.cases) (auto simp: Let_def)

lemma for_descriptions_unread:
  assumes "\<not> reads_active key arn_key it w"
  shows "waiting_arns (snd (for_descriptions key arn_key failure announce it w)) = waiting_arns w
       \<and> printed (snd (for_descriptions key arn_key failure announce it w)) = printed w"
  using assms
proof (induction "remaining it w" arbitrary: it w rule: less_induct)
  case less
  show ?case
  proof (cases "next_description it w")
    case None
    then show ?thesis by (subst (1 2) for_descriptions.simps) simp
  next
    case (Some x)
    then obtain r it' w' where nx: "next_description it w = Some (r, it', w')"
      by (cases x) auto
    note keep = next_description_remaining [OF nx]
    show ?thesis
    proof (cases r)
      case (Inl e)
      then show ?thesis using nx keep by (subst (1 2) for_descriptions.simps) simp
    next
      case (Inr d)
      show ?thesis
      proof (cases "getitem2 d key ''status''")
        case (Inl e)
        then show ?thesis using nx Inr keep by (subst (1 2) for_descriptions.simps) simp
      next
        case status: (Inr status)
        have na: "status \<noteq> ''ACTIVE''"
          using less.prems nx Inr status
          by (subst (asm) reads_active_def, subst (asm) descriptions_read.simps) auto
        show ?thesis
        proof (cases "getitem2 d key arn_key")
          case (Inl e)
          then show ?thesis using nx Inr status keep by (subst (1 2) for_descriptions.simps) simp
        next
          case arn: (Inr arn)
          show ?thesis
          proof (cases "str_in ''FAILED'' status")
            case True
            then show ?thesis using nx Inr status arn na keep
              by (subst (1 2) for_descriptions.simps) simp
          next
            case False
            have sm: "remaining it' w' < remaining it w"
              using keep by (intro next_description_shrinks [OF nx]) simp
            have "\<not> reads_active key arn_key it' w'"
              using less.prems nx Inr status arn na False
              by (subst (asm) reads_active_def, subst (asm) descriptions_read.simps)
                 (simp add: reads_active_def)
            from less.hyps [OF sm this] show ?thesis using nx Inr status arn na False keep
              by (subst (1 2) for_descriptions.simps) simp
          qed
        qed
      qed
    qed
  qed
qed

lemma descriptions_read_printed:
  "descriptions_read key arn_key it (w\<lparr>printed := p\<rparr>) = descriptions_read key arn_key it w"
proof (induction "remaining it w" arbitrary: it w rule: less_induct)
  case less
  show ?case
  proof (cases "next_description it w")
    case None
    then show ?thesis
      by (subst (1 2) descriptions_read.simps) (simp add: next_description_printed)
  next
    case (Some x)
    then obtain r it' w' where nx: "next_description it w = Some (r, it', w')"
      by (cases x) auto
    note keep = next_description_remaining [OF nx]
    have sm: "remaining it' w2 < remaining it w"
      if "length (waiting_arns w2) \<le> length (waiting_arns w')" for w2
      using keep that by (intro next_description_shrinks [OF nx]) simp
    have IH1: "descriptions_read key arn_key it' (w'\<lparr>printed := p\<rparr>)
        = descriptions_read key arn_key it' w'"
      by (rule less.hyps [OF sm]) simp
    have IH2: "descriptions_read key arn_key it' (w'\<lparr>printed := p, waiting_arns := rest\<rparr>)
        = descriptions_read key arn_key it' (w'\<lparr>waiting_arns := rest\<rparr>)"
      if "length rest \<le> length (waiting_arns w')" for rest
    proof -
      have "w'\<lparr>printed := p, waiting_arns := rest\<rparr> = (w'\<lparr>waiting_arns := rest\<rparr>)\<lparr>printed := p\<rparr>"
        by (cases w') simp
      moreover have "remaining it' (w'\<lparr>waiting_arns := rest\<rparr>) < remaining it w"
        using that by (intro sm) simp
      ultimately show ?thesis
        using less.hyps [of it' "w'\<lparr>waiting_arns := rest\<rparr>"] by (simp only:)
    qed
    show ?thesis
      using nx IH1 IH2
      by (subst (1 2) descriptions_read.simps)
         (auto simp: next_description_printed list_remove_def length_remove1
            split: sum.splits)
  qed
qed

lemma descriptions_read_lazy:
  "\<exists>arns. requested (snd (for_descriptions key arn_key failure announce (MapOverWaiting describe i) w))
            = requested w @ arns
         \<and> descriptions_read key arn_key (MapOverWaiting describe i) w
            = map (\<lambda>j. describe (length (requested w) + j) (arns ! j)) [0..<length arns]"
proof (induction "length (waiting_arns w) - i" arbitrary: i w rule: less_induct)
  case less
  let ?it = "MapOverWaiting describe i"
  show ?case
  proof (cases "i < length (waiting_arns w)")
    case False
    then show ?thesis
      by (subst for_descriptions.simps, subst descriptions_read.simps) simp
  next
    case True
    define a where "a = waiting_arns w ! i"
    define w' where "w' = w\<lparr>requested := requested w @ [a]\<rparr>"
    define r where "r = describe (length (requested w)) a"
    have nx: "next_description ?it w = Some (r, MapOverWaiting describe (i + 1), w')"
      using True by (simp add: a_def w'_def r_def Let_def)
    have one: "\<exists>arns. requested w' = requested w @ arns
         \<and> [r] = map (\<lambda>j. describe (length (requested w) + j) (arns ! j)) [0..<length arns]"
      by (rule exI [of _ "[a]"]) (simp add: w'_def r_def)
    have more: "\<exists>arns. requested (snd (for_descriptions key arn_key failure announce
                (MapOverWaiting describe (i + 1)) w2)) = requested w @ arns
         \<and> r # descriptions_read key arn_key (MapOverWaiting describe (i + 1)) w2
            = map (\<lambda>j. describe (length (requested w) + j) (arns ! j)) [0..<length arns]"
      if len: "length (waiting_arns w2) \<le> length (waiting_arns w)"
        and req: "requested w2 = requested w @ [a]" for w2
    proof -
      have "length (waiting_arns w2) - (i + 1) < length (waiting_arns w) - i"
        using True len by simp
      from less.hyps [OF this] obtain arns where
        q: "requested (snd (for_descriptions key arn_key failure announce
                (MapOverWaiting describe (i + 1)) w2)) = requested w2 @ arns"
        and d: "descriptions_read key arn_key (MapOverWaiting describe (i + 1)) w2
            = map (\<lambda>j. describe (length (requested w2) + j) (arns ! j)) [0..<length arns]"
        by blast
      have "r # map (\<lambda>j. describe (length (requested w2) + j) (arns ! j)) [0..<length arns]
          = map (\<lambda>j. describe (length (requested w) + j) ((a # arns) ! j)) [0..<length (a # arns)]"
        by (simp add: req r_def upt_conv_Cons map_Suc_upt [symmetric] del: upt_Suc)
      with q d req show ?thesis by (intro exI [of _ "a # arns"]) simp
    qed
    show ?thesis
    proof (cases r)
      case (Inl e)
      then show ?thesis using nx one
        by (subst for_descriptions.simps, subst descriptions_read.simps)
             (simp del: next_description.simps)
    next
      case (Inr d)
      show ?thesis
      proof (cases "getitem2 d key ''status''")
        case (Inl e)
        then show ?thesis using nx Inr one
          by (subst for_descriptions.simps, subst descriptions_read.simps)
             (simp del: next_description.simps)
      next
        case status: (Inr status)
        show ?thesis
        proof (cases "getitem2 d key arn_key")
          case (Inl e)
          then show ?thesis using nx Inr status one
            by (subst for_descriptions.simps, subst descriptions_read.simps)
             (simp del: next_description.simps)
        next
          case arn: (Inr arn)
          show ?thesis
          proof (cases "status = ''ACTIVE''")
            case True
            show ?thesis
            proof (cases "arn \<in> set (waiting_arns w')")
              case False
              then show ?thesis using nx Inr status arn True one
                by (subst for_descriptions.simps, subst descriptions_read.simps)
                   (simp add: list_remove_def Let_def del: next_description.simps)
            next
              case mem: True
              let ?w2 = "w'\<lparr>printed := printed w' @ announce arn,
                            waiting_arns := remove1 arn (waiting_arns w')\<rparr>"
              have "descriptions_read key arn_key (MapOverWaiting describe (i + 1)) ?w2
                  = descriptions_read key arn_key (MapOverWaiting describe (i + 1))
                      (w'\<lparr>waiting_arns := remove1 arn (waiting_arns w')\<rparr>)"
                using descriptions_read_printed
                  [where it = "MapOverWaiting describe (i + 1)"
                     and w = "w'\<lparr>waiting_arns := remove1 arn (waiting_arns w')\<rparr>"
                     and p = "printed w' @ announce arn" and key = key and arn_key = arn_key]
                by (cases w') simp
              moreover have "length (waiting_arns ?w2) \<le> length (waiting_arns w)"
                "requested ?w2 = requested w @ [a]"
                by (simp_all add: w'_def length_remove1)
              ultimately show ?thesis using more [of ?w2] nx Inr status arn True mem
                by (subst for_descriptions.simps, subst descriptions_read.simps)
                   (simp add: list_remove_def Let_def del: next_description.simps)
            qed
          next
            case False
            show ?thesis
            proof (cases "str_in ''FAILED'' status")
              case True
              then show ?thesis using nx Inr status arn False one
                by (subst for_descriptions.simps, subst descriptions_read.simps)
             (simp del: next_description.simps)
            next
              case nf: False
              have "length (waiting_arns w') \<le> length (waiting_arns w)"
                "requested w' = requested w @ [a]"
                by (simp_all add: w'_def)
              from more [OF this] show ?thesis using nx Inr status arn False nf
                by (subst for_descriptions.simps, subst descriptions_read.simps)
             (simp del: next_description.simps)
            qed
          qed
        qed
      qed
    qed
  qed
qed

lemma for_descriptions_silent:
  "printed (snd (for_descriptions key arn_key failure (\<lambda>arn. []) it w)) = printed w"
proof -
  have "\<exists>it' :: descriptions.
      printed (snd (for_descriptions key arn_key failure (\<lambda>arn. []) it w)) = printed w"
    by (rule for_descriptions_inv [where P = "\<lambda>it' w'. printed w' = printed w"])
       (auto dest: next_description_remaining)
  then show ?thesis by simp
qed

lemma imports_first:
  "are_imports_finished (MapOverWaiting all_active 0) two_waiting
     = (Inr None, \<lparr>waiting_arns = [''b''], requested = [''a''], printed = []\<rparr>)"
  by (simp add: are_imports_finished_def for_descriptions.simps all_active_def job_desc_def
        two_waiting_def getitem2_def getitem_def list_remove_def Let_def)

lemma imports_second:
  "are_imports_finished (MapOverWaiting all_active 0)
       \<lparr>waiting_arns = [''b''], requested = [''a''], printed = []\<rparr>
     = (Inr (Some True), \<lparr>waiting_arns = [], requested = [''a'', ''b''], printed = []\<rparr>)"
  by (simp add: are_imports_finished_def for_descriptions.simps all_active_def job_desc_def
        getitem2_def getitem_def list_remove_def Let_def)

lemma solutions_first:
  "are_solutions_finished (MapOverWaiting all_trained 0) two_waiting
     = (Inr None, \<lparr>waiting_arns = [''b''], requested = [''a''],
                    printed = [newline @ ''Trained a'']\<rparr>)"
  by (simp add: are_solutions_finished_def for_descriptions.simps all_trained_def job_desc_def
        two_waiting_def getitem2_def getitem_def list_remove_def Let_def)

text \<open>
  C5, as stated, fails at the call sites' own snapshot, the lazy map over \<open>waiting_arns\<close>,
  on a service where both jobs are \<open>ACTIVE\<close>: \<open>are_imports_finished\<close> changes
  \<open>waiting_arns\<close> from \<open>[a, b]\<close> to \<open>[b]\<close> and returns None, and on an equal snapshot in
  the state it left it returns True; \<open>are_solutions_finished\<close> changes \<open>waiting_arns\<close> the
  same way and prints a line.
\<close>

theorem multi_job_predicates_not_pure_counterexample:
  "waiting_arns two_waiting = [''a'', ''b'']
   \<and> waiting_arns (snd (are_imports_finished (MapOverWaiting all_active 0) two_waiting)) = [''b'']
   \<and> fst (are_imports_finished (MapOverWaiting all_active 0) two_waiting) = Inr None
   \<and> fst (are_imports_finished (MapOverWaiting all_active 0)
            (snd (are_imports_finished (MapOverWaiting all_active 0) two_waiting)))
       = Inr (Some True)
   \<and> waiting_arns (snd (are_solutions_finished (MapOverWaiting all_trained 0) two_waiting))
       = [''b'']
   \<and> printed two_waiting = []
   \<and> printed (snd (are_solutions_finished (MapOverWaiting all_trained 0) two_waiting))
       = [newline @ ''Trained a'']"
  by (simp add: imports_first imports_second solutions_first) (simp add: two_waiting_def)

lemma finished_result:
  "\<not> isl (fst (are_imports_finished ds w)) \<Longrightarrow>
     fst (are_imports_finished ds w)
       = (if waiting_arns (snd (are_imports_finished ds w)) = [] then Inr (Some True) else Inr None)"
  "\<not> isl (fst (are_solutions_finished vs u)) \<Longrightarrow>
     fst (are_solutions_finished vs u)
       = (if waiting_arns (snd (are_solutions_finished vs u)) = [] then Inr (Some True) else Inr None)"
  by (auto simp: are_imports_finished_def are_solutions_finished_def split: prod.splits sum.splits)

lemma finished_state:
  "snd (are_imports_finished ds w)
     = snd (for_descriptions ''datasetImportJob'' ''datasetImportJobArn'' ''Data import failed!''
             (\<lambda>arn. []) ds w)"
  "snd (are_solutions_finished ds w)
     = snd (for_descriptions ''solutionVersion'' ''solutionVersionArn'' ''Build failed!''
             (\<lambda>arn. [newline @ ''Trained '' @ arn]) ds w)"
  by (auto simp: are_imports_finished_def are_solutions_finished_def split: prod.splits sum.splits)

lemma single_job_verdict:
  "getitem2 d1 k ''status'' = getitem2 d2 k ''status'' \<Longrightarrow>
   py_verdict (case getitem2 d1 k ''status'' of Inl e \<Rightarrow> Inl e
     | Inr status \<Rightarrow> if status = ''ACTIVE'' then Inr (Some True)
         else if str_in f status then Inl (ValueError m (Some d1)) else Inr None)
   = py_verdict (case getitem2 d2 k ''status'' of Inl e \<Rightarrow> Inl e
     | Inr status \<Rightarrow> if status = ''ACTIVE'' then Inr (Some True)
         else if str_in f status then Inl (ValueError m (Some d2)) else Inr None)"
  by (simp add: py_verdict_def split: sum.splits)

text \<open>
  C5, amended: the outcome of \<open>is_dsg_ready\<close>, \<open>is_ds_ready\<close> and \<open>is_batch_job_finished\<close>
  is determined by the status in the snapshot alone. \<open>are_imports_finished\<close> and
  \<open>are_solutions_finished\<close> read and update \<open>waiting_arns\<close>: they only remove elements
  from it, they leave it unchanged when none of the descriptions they read in that
  evaluation has the status \<open>ACTIVE\<close> (\<open>are_solutions_finished\<close> then prints nothing,
  \<open>are_imports_finished\<close> never prints), and when they end without an exception they
  return True if \<open>waiting_arns\<close> is then empty and None otherwise.
\<close>

theorem completion_predicates_purity:
  "(getitem2 d1 ''datasetGroup'' ''status'' = getitem2 d2 ''datasetGroup'' ''status''
      \<longrightarrow> py_verdict (is_dsg_ready d1) = py_verdict (is_dsg_ready d2))
   \<and> (getitem2 d1 ''dataset'' ''status'' = getitem2 d2 ''dataset'' ''status''
      \<longrightarrow> py_verdict (is_ds_ready d1) = py_verdict (is_ds_ready d2))
   \<and> (getitem2 d1 ''batchInferenceJob'' ''status'' = getitem2 d2 ''batchInferenceJob'' ''status''
      \<longrightarrow> py_verdict (is_batch_job_finished d1) = py_verdict (is_batch_job_finished d2))
   \<and> subseq (waiting_arns (snd (are_imports_finished ds w))) (waiting_arns w)
   \<and> subseq (waiting_arns (snd (are_solutions_finished vs u))) (waiting_arns u)
   \<and> printed (snd (are_imports_finished ds w)) = printed w
   \<and> (\<not> reads_active ''datasetImportJob'' ''datasetImportJobArn'' ds w
      \<longrightarrow> waiting_arns (snd (are_imports_finished ds w)) = waiting_arns w)
   \<and> (\<not> reads_active ''solutionVersion'' ''solutionVersionArn'' vs u
      \<longrightarrow> waiting_arns (snd (are_solutions_finished vs u)) = waiting_arns u
        \<and> printed (snd (are_solutions_finished vs u)) = printed u)
   \<and> (\<not> isl (fst (are_imports_finished ds w))
      \<longrightarrow> fst (are_imports_finished ds w)
          = (if waiting_arns (snd (are_imports_finished ds w)) = []
             then Inr (Some True) else Inr None))
   \<and> (\<not> isl (fst (are_solutions_finished vs u))
      \<longrightarrow> fst (are_solutions_finished vs u)
          = (if waiting_arns (snd (are_solutions_finished vs u)) = []
             then Inr (Some True) else Inr None))"
  using single_job_verdict [of d1 "''datasetGroup''" d2]
        single_job_verdict [of d1 "''dataset''" d2]
        single_job_verdict [of d1 "''batchInferenceJob''" d2]
        finished_result(1) [of ds w] finished_result(2) [of vs u]
  by (simp add: is_dsg_ready_def is_ds_ready_def is_batch_job_finished_def finished_state
        for_descriptions_subseq for_descriptions_silent for_descriptions_unread)

lemma pending_twice_run:
  "are_imports_finished (MapOverWaiting imports_pending_twice 0) two_waiting
     = (Inr None, two_waiting\<lparr>requested := [''a'', ''b'']\<rparr>)"
  "are_solutions_finished (MapOverWaiting solutions_pending_twice 0) two_waiting
     = (Inr None, two_waiting\<lparr>requested := [''a'', ''b'']\<rparr>)"
  by (simp_all add: are_imports_finished_def are_solutions_finished_def for_descriptions.simps
        imports_pending_twice_def solutions_pending_twice_def job_desc_def two_waiting_def
        getitem2_def getitem_def Let_def)

lemma pending_twice_read:
  "descriptions_read ''datasetImportJob'' ''datasetImportJobArn''
       (MapOverWaiting imports_pending_twice 0) two_waiting
     = [Inr (job_desc ''datasetImportJob'' ''datasetImportJobArn'' ''a'' ''CREATE PENDING''),
        Inr (job_desc ''datasetImportJob'' ''datasetImportJobArn'' ''b'' ''CREATE PENDING'')]"
  "descriptions_read ''solutionVersion'' ''solutionVersionArn''
       (MapOverWaiting solutions_pending_twice 0) two_waiting
     = [Inr (job_desc ''solutionVersion'' ''solutionVersionArn'' ''a'' ''CREATE PENDING''),
        Inr (job_desc ''solutionVersion'' ''solutionVersionArn'' ''b'' ''CREATE PENDING'')]"
  by (simp_all add: descriptions_read.simps imports_pending_twice_def solutions_pending_twice_def
        two_waiting_def Let_def job_desc_def getitem2_def getitem_def)

theorem completion_predicates_purity_witness:
  "getitem2 (status_desc ''datasetGroup'' ''ACTIVE'') ''datasetGroup'' ''status''
     = getitem2 (job_desc ''datasetGroup'' ''datasetGroupArn'' ''arn:dsg'' ''ACTIVE'')
         ''datasetGroup'' ''status''
   \<and> getitem2 (status_desc ''datasetGroup'' ''ACTIVE'') ''dataset'' ''status''
     = getitem2 (job_desc ''datasetGroup'' ''datasetGroupArn'' ''arn:dsg'' ''ACTIVE'')
         ''dataset'' ''status''
   \<and> getitem2 (status_desc ''datasetGroup'' ''ACTIVE'') ''batchInferenceJob'' ''status''
     = getitem2 (job_desc ''datasetGroup'' ''datasetGroupArn'' ''arn:dsg'' ''ACTIVE'')
         ''batchInferenceJob'' ''status''
   \<and> py_verdict (is_dsg_ready (status_desc ''datasetGroup'' ''ACTIVE''))
     = py_verdict (is_dsg_ready
         (job_desc ''datasetGroup'' ''datasetGroupArn'' ''arn:dsg'' ''ACTIVE''))
   \<and> \<not> reads_active ''datasetImportJob'' ''datasetImportJobArn''
         (MapOverWaiting imports_pending_twice 0) two_waiting
   \<and> \<not> reads_active ''solutionVersion'' ''solutionVersionArn''
         (MapOverWaiting solutions_pending_twice 0) two_waiting
   \<and> \<not> isl (fst (are_imports_finished (MapOverWaiting imports_pending_twice 0) two_waiting))
   \<and> \<not> isl (fst (are_solutions_finished (MapOverWaiting solutions_pending_twice 0) two_waiting))
   \<and> waiting_arns two_waiting = [''a'', ''b'']
   \<and> waiting_arns (snd (are_imports_finished (MapOverWaiting imports_pending_twice 0)
         two_waiting)) = [''a'', ''b'']
   \<and> waiting_arns (snd (are_solutions_finished (MapOverWaiting solutions_pending_twice 0)
         two_waiting)) = [''a'', ''b'']
   \<and> printed (snd (are_solutions_finished (MapOverWaiting solutions_pending_twice 0)
         two_waiting)) = []
   \<and> fst (are_imports_finished (MapOverWaiting imports_pending_twice 0) two_waiting) = Inr None
   \<and> fst (are_solutions_finished (MapOverWaiting solutions_pending_twice 0) two_waiting)
     = Inr None"
proof -
  have k: "getitem2 (status_desc ''datasetGroup'' ''ACTIVE'') ''datasetGroup'' ''status''
     = getitem2 (job_desc ''datasetGroup'' ''datasetGroupArn'' ''arn:dsg'' ''ACTIVE'')
         ''datasetGroup'' ''status''"
    "getitem2 (status_desc ''datasetGroup'' ''ACTIVE'') ''dataset'' ''status''
     = getitem2 (job_desc ''datasetGroup'' ''datasetGroupArn'' ''arn:dsg'' ''ACTIVE'')
         ''dataset'' ''status''"
    "getitem2 (status_desc ''datasetGroup'' ''ACTIVE'') ''batchInferenceJob'' ''status''
     = getitem2 (job_desc ''datasetGroup'' ''datasetGroupArn'' ''arn:dsg'' ''ACTIVE'')
         ''batchInferenceJob'' ''status''"
    by (simp_all add: getitem2_def getitem_def status_desc_def job_desc_def)
  have a: "\<not> reads_active ''datasetImportJob'' ''datasetImportJobArn''
         (MapOverWaiting imports_pending_twice 0) two_waiting"
    "\<not> reads_active ''solutionVersion'' ''solutionVersionArn''
         (MapOverWaiting solutions_pending_twice 0) two_waiting"
    by (simp_all add: reads_active_def pending_twice_read)
       (simp_all add: job_desc_def getitem2_def getitem_def)
  have r: "\<not> isl (fst (are_imports_finished (MapOverWaiting imports_pending_twice 0) two_waiting))"
    "\<not> isl (fst (are_solutions_finished (MapOverWaiting solutions_pending_twice 0) two_waiting))"
    by (simp_all add: pending_twice_run)
  have v: "waiting_arns two_waiting = [''a'', ''b'']" "printed two_waiting = []"
    by (simp_all add: two_waiting_def)
  from completion_predicates_purity
    [of "status_desc ''datasetGroup'' ''ACTIVE''"
        "job_desc ''datasetGroup'' ''datasetGroupArn'' ''arn:dsg'' ''ACTIVE''"
        "MapOverWaiting imports_pending_twice 0" two_waiting
        "MapOverWaiting solutions_pending_twice 0" two_waiting] k a r v
  show ?thesis by (simp add: pending_twice_run)
qed

end
